theory Spec2Isabelle
  imports Complex_Main "HOL-Library.AList"
begin

section \<open>Data model\<close>

text \<open>
  The backend keeps every session as a Python dictionary. The model turns each
  dictionary shape into a record and each optional key into an \<open>option\<close> field.
  Python integers are unbounded, so they are \<open>int\<close>; Python's \<open>//\<close> and \<open>%\<close> round
  towards minus infinity, as \<open>div\<close> and \<open>mod\<close> on \<open>int\<close> do. Division by zero raises
  in Python and is written out as an error value wherever the source divides.
\<close>

datatype py_error = ZeroDivisionError | AttributeError | KeyError | TypeError

text \<open>A quorum certificate, as built in \<open>handle_vote\<close>.\<close>

record qc =
  qc_phase :: string
  qc_view :: int
  qc_signers :: "int list"
  qc_value :: int
  qc_total_weight :: int
  qc_is_multi_layer :: bool

text \<open>One entry of \<open>session["node_states"]\<close>.\<close>

record node_state =
  lockedQC :: "qc option"
  prepareQC :: "qc option"
  currentView :: int
  highQC :: "qc option"

text \<open>
  A vote message. Keys that the handlers read with \<open>.get(key, default)\<close> are
  optional fields; \<open>is_group_vote\<close> absent reads as \<open>False\<close>.
\<close>

record vote_msg =
  vm_from :: int
  vm_to :: int
  vm_value :: int
  vm_phase :: "string option"
  vm_view :: "int option"
  vm_round :: int
  vm_is_group_vote :: bool
  vm_weight :: "int option"
  vm_group_id :: "int option"
  vm_group_voters :: "int list option"

text \<open>One contribution recorded under \<open>pending_votes[key]["group_votes"]\<close>.\<close>

record contribution =
  c_from :: int
  c_weight :: int
  c_group_voters :: "int list"

record pending =
  total_weight :: int
  group_votes :: "contribution list"

record qc_msg =
  qm_from :: int
  qm_phase :: string
  qm_next_phase :: string
  qm_view :: int
  qm_round :: int
  qm_qc :: qc

record proposal_msg =
  pm_from :: int
  pm_value :: int
  pm_view :: int
  pm_round :: int
  pm_qc :: "qc option"

record new_view_msg =
  nv_from :: int
  nv_to :: int
  nv_view :: int
  nv_old_view :: int
  nv_round :: int
  nv_highQC :: "qc option"

record robot_state =
  received_pre_prepare :: bool
  received_prepare_count :: int
  received_commit_count :: int
  sent_prepare :: bool
  sent_commit :: bool

text \<open>
  \<open>session["message_buffer"]\<close> is one dictionary with integer keys that two writers
  share: \<open>handle_vote\<close> stores a list of votes under a view number, and
  \<open>handle_proposal_message\<close> stores a per-node dictionary under a node id.
\<close>

datatype buffer_entry =
  VoteList "vote_msg list"
  | NodeBuffer "(int \<times> proposal_msg list) list"

text \<open>The rows of the complexity comparison table and the consensus result.\<close>

record algo_row =
  theoretical :: int
  actual :: int

record algo_ratio_row = algo_row +
  optimization_ratio :: rat

record complexity_comparison =
  double_hotstuff :: algo_row
  pbft_pure :: algo_ratio_row
  hotstuff_pure :: algo_ratio_row
  pbft_multi_layer :: algo_ratio_row

record stats =
  expected_nodes :: int
  expected_prepare_nodes :: int
  total_messages :: int
  st_complexity_comparison :: complexity_comparison
  st_actual_messages :: int
  st_node_count :: int
  st_branch_count :: int

record consensus_result =
  cr_status :: string
  cr_description :: string
  cr_stats :: stats

record history_item =
  h_round :: int
  h_view :: int
  h_status :: string
  h_description :: string
  h_stats :: stats

text \<open>The view-change timer: the session holds the task, \<open>cancel()\<close> marks it.\<close>

record timeout_task =
  tt_view :: int
  tt_cancelled :: bool

record config =
  nodeCount :: int
  branchCount :: int
  proposalValue :: int

text \<open>
  The session dictionary of \<open>create_session\<close>, with \<open>messages\<close> and \<open>network_stats\<close>
  flattened into fields. Timestamps, socket ids and the random delivery gate are not part
  of the model: a message counts as emitted when it is appended to its log.
\<close>

record session =
  config :: config
  status :: string
  phase :: string
  phase_step :: int
  current_view :: int
  current_round :: int
  start_view_of_round :: int
  leader_id :: int
  robot_nodes :: "int list"
  robot_node_states :: "int \<rightharpoonup> robot_state"
  timeout_task :: "timeout_task option"
  messages_pre_prepare :: "proposal_msg list"
  messages_prepare :: "vote_msg list"
  messages_commit :: "vote_msg list"
  messages_vote :: "vote_msg list"
  messages_qc :: "qc_msg list"
  messages_new_view :: "new_view_msg list"
  node_states :: "int \<rightharpoonup> node_state"
  pending_group_votes :: "(int \<times> string \<times> int \<times> int) \<rightharpoonup> int list"
  pending_votes :: "(int \<times> string \<times> int) \<rightharpoonup> pending"
  pending_new_views :: "int \<rightharpoonup> (int \<times> new_view_msg) list"
  message_buffer :: "int \<rightharpoonup> buffer_entry"
  total_messages_sent :: int
  phases_count :: int
  consensus_result :: "consensus_result option"
  consensus_history :: "history_item list"
  consensus_finalized_view :: "int option"
  last_pre_prepare_view :: "int option"

section \<open>consensus\_engine.py\<close>

definition get_quorum_threshold :: "session \<Rightarrow> int" where
  "get_quorum_threshold s =
     (let n = nodeCount (config s); f = (n - 1) div 3 in 2 * f + 1)"

definition get_local_quorum_threshold :: "session \<Rightarrow> int \<Rightarrow> int" where
  "get_local_quorum_threshold s group_size =
     (let f_local = (group_size - 1) div 3 in 2 * f_local + 1)"

definition get_next_phase :: "string \<Rightarrow> string" where
  "get_next_phase p =
     (if p = ''new-view'' then ''prepare''
      else if p = ''prepare'' then ''pre-commit''
      else if p = ''pre-commit'' then ''commit''
      else if p = ''commit'' then ''decide''
      else if p = ''decide'' then ''decide''
      else ''prepare'')"

fun qc_extends :: "qc option \<Rightarrow> qc option \<Rightarrow> bool" where
  "qc_extends _ None = True"
| "qc_extends None (Some _) = False"
| "qc_extends (Some qc1) (Some qc2) =
     (qc_view qc1 > qc_view qc2 \<and> qc_value qc1 = qc_value qc2)"

text \<open>
  \<open>session["node_states"].get(node_id, {}).get("lockedQC")\<close>: an unknown node reads as
  a node without a lock.
\<close>

definition locked_of :: "session \<Rightarrow> int \<Rightarrow> qc option" where
  "locked_of s node_id =
     (case node_states s node_id of None \<Rightarrow> None | Some ns \<Rightarrow> lockedQC ns)"

definition check_safe_node ::
  "session \<Rightarrow> int \<Rightarrow> int \<Rightarrow> int \<Rightarrow> qc option \<Rightarrow> bool" where
  "check_safe_node s node_id proposal_view proposal_value proposal_qc =
     (case locked_of s node_id of
        None \<Rightarrow> True
      | Some locked \<Rightarrow>
          if proposal_view > qc_view locked then True
          else if proposal_qc \<noteq> None then
            (if qc_extends proposal_qc (Some locked) then True else False)
          else if proposal_value = qc_value locked \<and> proposal_view \<ge> qc_view locked
            then True
          else False)"

text \<open>
  The update writes into the dictionary that \<open>.get(node_id, {})\<close> returned: for an
  unknown node that is a fresh dictionary, and the assignment is lost.
\<close>

definition update_node_locked_qc :: "session \<Rightarrow> int \<Rightarrow> qc \<Rightarrow> session" where
  "update_node_locked_qc s node_id q =
     (case node_states s node_id of
        None \<Rightarrow> s
      | Some ns \<Rightarrow>
          (case lockedQC ns of
             None \<Rightarrow> s\<lparr>node_states := (node_states s)(node_id \<mapsto> ns\<lparr>lockedQC := Some q\<rparr>)\<rparr>
           | Some cur \<Rightarrow>
               if qc_view q > qc_view cur
               then s\<lparr>node_states := (node_states s)(node_id \<mapsto> ns\<lparr>lockedQC := Some q\<rparr>)\<rparr>
               else s))"

definition update_node_prepare_qc :: "session \<Rightarrow> int \<Rightarrow> qc \<Rightarrow> session" where
  "update_node_prepare_qc s node_id q =
     (case node_states s node_id of
        None \<Rightarrow> s
      | Some ns \<Rightarrow>
          (case prepareQC ns of
             None \<Rightarrow>
               s\<lparr>node_states :=
                   (node_states s)(node_id \<mapsto> ns\<lparr>prepareQC := Some q, highQC := Some q\<rparr>)\<rparr>
           | Some cur \<Rightarrow>
               if qc_view q > qc_view cur
               then s\<lparr>node_states :=
                   (node_states s)(node_id \<mapsto> ns\<lparr>prepareQC := Some q, highQC := Some q\<rparr>)\<rparr>
               else s))"

section \<open>topology\_manager.py\<close>

text \<open>
  The dictionary that \<open>get_topology_info\<close> returns, as a tagged union on its \<open>role\<close>:
  for \<open>root\<close> the keys \<open>parent_id\<close>, \<open>group_id\<close> and \<open>group_size\<close> are all \<open>None\<close>.
\<close>

datatype topology_info =
  Root
  | Group_leader (parent_id: int) (group_id: int) (group_size: int)
  | Member (parent_id: int) (group_id: int) (group_size: int)

definition get_current_leader :: "session \<Rightarrow> int option \<Rightarrow> py_error + int" where
  "get_current_leader s view =
     (let v = (case view of None \<Rightarrow> current_view s | Some v \<Rightarrow> v);
          n = nodeCount (config s)
      in if n = 0 then Inl ZeroDivisionError else Inr (v mod n))"

definition get_topology_info ::
  "session \<Rightarrow> int \<Rightarrow> int option \<Rightarrow> py_error + topology_info" where
  "get_topology_info s node_id view =
     (let n = nodeCount (config s);
          branch_count = max 1 (branchCount (config s));
          v = (case view of None \<Rightarrow> current_view s | Some v \<Rightarrow> v)
      in if n = 0 then Inl ZeroDivisionError
         else
           let global_leader_id = v mod n in
           if node_id = global_leader_id then Inr Root
           else
             let group_size = max 1 (n div branch_count);
                 group_id = node_id div group_size;
                 group_start_id = group_id * group_size;
                 group_end_id = min ((group_id + 1) * group_size) n;
                 actual_group_size = max 0 (group_end_id - group_start_id)
             in if node_id = group_start_id \<and> node_id \<noteq> global_leader_id
                then Inr (Group_leader global_leader_id group_id actual_group_size)
                else Inr (Member group_start_id group_id actual_group_size))"

section \<open>socket\_handlers.py\<close>

text \<open>Python's \<open>range(n)\<close> and \<open>str(n)\<close> on integers.\<close>

definition py_range :: "int \<Rightarrow> int list" where
  "py_range n = [0..n - 1]"

fun str_nat :: "nat \<Rightarrow> string" where
  "str_nat n =
     (if n < 10 then [''0123456789'' ! n]
      else str_nat (n div 10) @ [''0123456789'' ! (n mod 10)])"

definition str_int :: "int \<Rightarrow> string" where
  "str_int i = (if i < 0 then ''-'' @ str_nat (nat (- i)) else str_nat (nat i))"

definition count_message_sent :: "session \<Rightarrow> bool \<Rightarrow> int option \<Rightarrow> session" where
  "count_message_sent s is_broadcast target_count =
     (let message_count =
            (if is_broadcast then
               (case target_count of
                  None \<Rightarrow> max (nodeCount (config s) - 1) 0
                | Some t \<Rightarrow> max t 0)
             else 1)
      in s\<lparr>total_messages_sent := total_messages_sent s + message_count\<rparr>)"

text \<open>
  The dictionary literal of \<open>create_session\<close>; the last assignment of the function,
  \<open>current_view % nodeCount\<close>, is the only statement of it that can raise.
\<close>

definition new_session :: "config \<Rightarrow> session" where
  "new_session cfg =
     \<lparr>config = cfg, status = ''waiting'', phase = ''waiting'', phase_step = 0,
      current_view = 0, current_round = 1, start_view_of_round = 0,
      leader_id = 0 mod nodeCount cfg,
      robot_nodes = [], robot_node_states = Map.empty, timeout_task = None,
      messages_pre_prepare = [], messages_prepare = [], messages_commit = [],
      messages_vote = [], messages_qc = [], messages_new_view = [],
      node_states =
        (\<lambda>node_id. if 0 \<le> node_id \<and> node_id < nodeCount cfg
           then Some \<lparr>lockedQC = None, prepareQC = None, currentView = 0, highQC = None\<rparr>
           else None),
      pending_group_votes = Map.empty, pending_votes = Map.empty,
      pending_new_views = Map.empty, message_buffer = Map.empty,
      total_messages_sent = 0, phases_count = 0,
      consensus_result = None, consensus_history = [],
      consensus_finalized_view = None, last_pre_prepare_view = None\<rparr>"

definition create_session :: "config \<Rightarrow> py_error + session" where
  "create_session cfg =
     (if nodeCount cfg = 0 then Inl ZeroDivisionError else Inr (new_session cfg))"

definition handle_qc_message :: "session \<Rightarrow> qc_msg \<Rightarrow> int \<Rightarrow> session" where
  "handle_qc_message s qm node_id =
     (let q = qm_qc qm;
          s1 = update_node_prepare_qc s node_id q
      in if qc_phase q = ''commit'' then update_node_locked_qc s1 node_id q else s1)"

subsection \<open>The complexity report of \<open>finalize_consensus\<close>\<close>

text \<open>
  Python's \<open>a / b\<close> on two integers is the double nearest to the quotient; the model keeps
  the exact quotient as a rational number.
\<close>

definition optimization :: "int \<Rightarrow> int \<Rightarrow> rat" where
  "optimization theo hotstuff_double_actual =
     (if hotstuff_double_actual > 0 then of_int theo / of_int hotstuff_double_actual else 0)"

definition build_complexity_comparison :: "int \<Rightarrow> int \<Rightarrow> int \<Rightarrow> complexity_comparison" where
  "build_complexity_comparison n branch_count actual_messages =
     (let k = max 1 branch_count;
          grp_size = (if k > 0 then n div k else n);
          shadow_pbft_actual = 2 * n * (n - 1);
          shadow_hotstuff_actual = 8 * (n - 1);
          shadow_multilayer_actual = (2 * k * (k - 1)) + (k * 2 * grp_size * (grp_size - 1));
          hotstuff_double_actual = actual_messages;
          theoretical_double_hotstuff = 8 * n;
          theoretical_pbft = 2 * n * n;
          theoretical_hotstuff = 4 * n;
          theoretical_multilayer = 2 * k * k + 2 * n * n div k
      in \<lparr>double_hotstuff =
            \<lparr>theoretical = theoretical_double_hotstuff, actual = hotstuff_double_actual\<rparr>,
          pbft_pure =
            \<lparr>theoretical = theoretical_pbft, actual = shadow_pbft_actual,
             optimization_ratio = optimization theoretical_pbft hotstuff_double_actual\<rparr>,
          hotstuff_pure =
            \<lparr>theoretical = theoretical_hotstuff, actual = shadow_hotstuff_actual,
             optimization_ratio = optimization theoretical_hotstuff hotstuff_double_actual\<rparr>,
          pbft_multi_layer =
            \<lparr>theoretical = theoretical_multilayer, actual = shadow_multilayer_actual,
             optimization_ratio = optimization theoretical_multilayer hotstuff_double_actual\<rparr>\<rparr>)"

definition build_consensus_result :: "session \<Rightarrow> string \<Rightarrow> string \<Rightarrow> consensus_result" where
  "build_consensus_result s st descr =
     (let cfg = config s;
          actual_messages = total_messages_sent s;
          n = nodeCount cfg;
          branch_count = branchCount cfg
      in \<lparr>cr_status = st, cr_description = descr,
          cr_stats =
            \<lparr>expected_nodes = nodeCount cfg,
             expected_prepare_nodes = nodeCount cfg - 1,
             total_messages = int (length (messages_prepare s)) + int (length (messages_commit s)),
             st_complexity_comparison = build_complexity_comparison n branch_count actual_messages,
             st_actual_messages = actual_messages,
             st_node_count = n,
             st_branch_count = branch_count\<rparr>\<rparr>)"

text \<open>
  \<open>finalize_consensus\<close>. The task that starts the next round is only scheduled here
  (it sleeps first), so it is not part of this step.
\<close>

definition finalize_consensus :: "session \<Rightarrow> string \<Rightarrow> string \<Rightarrow> session" where
  "finalize_consensus s st descr =
     (let cv = current_view s in
      if consensus_finalized_view s = Some cv then s
      else
        let s1 = s\<lparr>consensus_finalized_view := Some cv\<rparr>;
            s2 = (case timeout_task s1 of
                    None \<Rightarrow> s1
                  | Some t \<Rightarrow> s1\<lparr>timeout_task := Some (t\<lparr>tt_cancelled := True\<rparr>)\<rparr>);
            s3 = s2\<lparr>phase := ''completed'', phase_step := 4, status := ''completed''\<rparr>;
            res = build_consensus_result s3 st descr;
            s4 = s3\<lparr>consensus_result := Some res\<rparr>;
            item = \<lparr>h_round = current_round s4, h_view = current_view s4, h_status = st,
                    h_description = descr, h_stats = cr_stats res\<rparr>
        in s4\<lparr>consensus_history := consensus_history s4 @ [item]\<rparr>)"

subsection \<open>Hierarchical broadcast accounting\<close>

text \<open>
  \<open>handle_vote\<close> and \<open>robot_send_pre_prepare\<close> share this block of statements: the
  group leaders are collected, one call of \<open>count_message_sent\<close> accounts for them, and
  one more call per group leader accounts for its members.
\<close>

definition collect_group_leaders :: "int \<Rightarrow> int \<Rightarrow> int \<Rightarrow> int \<Rightarrow> int list" where
  "collect_group_leaders n branch_count grp_size leader =
     filter (\<lambda>group_start_id. group_start_id < n \<and> group_start_id \<noteq> leader)
       (map (\<lambda>gid. gid * grp_size) (py_range branch_count))"

fun forward_to_members :: "int \<Rightarrow> int \<Rightarrow> int \<Rightarrow> int list \<Rightarrow> session \<Rightarrow> py_error + session" where
  "forward_to_members view grp_size n [] s = Inr s"
| "forward_to_members view grp_size n (gl_id # gls) s =
     (case get_topology_info s gl_id (Some view) of
        Inl e \<Rightarrow> Inl e
      | Inr Root \<Rightarrow> Inl TypeError
      | Inr gl_info \<Rightarrow>
          let gid = group_id gl_info;
              group_start_id = gid * grp_size;
              group_end_id = min ((gid + 1) * grp_size) n;
              target_member_count = max (group_end_id - (group_start_id + 1)) 0;
              s1 = (if target_member_count > 0
                    then count_message_sent s False (Some target_member_count) else s)
          in forward_to_members view grp_size n gls s1)"

definition hierarchical_broadcast :: "session \<Rightarrow> int \<Rightarrow> int \<Rightarrow> py_error + session" where
  "hierarchical_broadcast s view leader =
     (let n = nodeCount (config s);
          branch_count = branchCount (config s)
      in if branch_count = 0 then Inl ZeroDivisionError
         else
           let grp_size = max 1 (n div branch_count);
               group_leaders = collect_group_leaders n branch_count grp_size leader;
               s1 = (if group_leaders \<noteq> []
                     then count_message_sent s False (Some (int (length group_leaders)))
                     else s)
           in forward_to_members view grp_size n group_leaders s1)"

subsection \<open>\<open>handle_vote\<close>\<close>

definition vote_view :: "session \<Rightarrow> vote_msg \<Rightarrow> int" where
  "vote_view s m = (case vm_view m of None \<Rightarrow> current_view s | Some v \<Rightarrow> v)"

definition vote_phase :: "vote_msg \<Rightarrow> string" where
  "vote_phase m = (case vm_phase m of None \<Rightarrow> ''prepare'' | Some p \<Rightarrow> p)"

text \<open>The future-view branch: \<open>buffer[view].append(vote_message)\<close>.\<close>

definition buffer_vote :: "session \<Rightarrow> int \<Rightarrow> vote_msg \<Rightarrow> py_error + session" where
  "buffer_vote s view m =
     (case message_buffer s view of
        None \<Rightarrow> Inr (s\<lparr>message_buffer := (message_buffer s)(view \<mapsto> VoteList [m])\<rparr>)
      | Some (VoteList ms) \<Rightarrow>
          Inr (s\<lparr>message_buffer := (message_buffer s)(view \<mapsto> VoteList (ms @ [m]))\<rparr>)
      | Some (NodeBuffer _) \<Rightarrow> Inl AttributeError)"

text \<open>The contribution that a vote adds to \<open>pending_votes[key]\<close>.\<close>

definition contribution_of :: "vote_msg \<Rightarrow> contribution" where
  "contribution_of m =
     (if vm_is_group_vote m then
        \<lparr>c_from = vm_from m,
         c_weight = (case vm_weight m of None \<Rightarrow> 1 | Some w \<Rightarrow> w),
         c_group_voters = (case vm_group_voters m of None \<Rightarrow> [] | Some vs \<Rightarrow> vs)\<rparr>
      else \<lparr>c_from = vm_from m, c_weight = 1, c_group_voters = [vm_from m]\<rparr>)"

definition add_pending :: "session \<Rightarrow> (int \<times> string \<times> int) \<Rightarrow> contribution \<Rightarrow> session" where
  "add_pending s key c =
     (let old = (case pending_votes s key of
                   None \<Rightarrow> \<lparr>total_weight = 0, group_votes = []\<rparr>
                 | Some p \<Rightarrow> p)
      in s\<lparr>pending_votes := (pending_votes s)(key \<mapsto>
             \<lparr>total_weight = total_weight old + c_weight c,
              group_votes = group_votes old @ [c]\<rparr>)\<rparr>)"

text \<open>\<open>pending[key]["total_weight"]\<close> and \<open>pending[key]["group_votes"]\<close>.\<close>

definition pending_weight :: "session \<Rightarrow> (int \<times> string \<times> int) \<Rightarrow> int" where
  "pending_weight s key = (case pending_votes s key of None \<Rightarrow> 0 | Some p \<Rightarrow> total_weight p)"

definition pending_contributions ::
  "session \<Rightarrow> (int \<times> string \<times> int) \<Rightarrow> contribution list" where
  "pending_contributions s key =
     (case pending_votes s key of None \<Rightarrow> [] | Some p \<Rightarrow> group_votes p)"

text \<open>
  \<open>all_voters\<close> is a Python set and \<open>signers\<close> its \<open>list(...)\<close>: the order of that
  list is not specified by Python, the model lists the voters in order of first arrival.
\<close>

definition collect_signers :: "contribution list \<Rightarrow> int list" where
  "collect_signers gvs = remdups (concat (map c_group_voters gvs))"

text \<open>
  The statements of \<open>handle_vote\<close> from "quorum reached" to its end: the QC is built
  from the tally under \<open>key\<close>, the phase advances, the QC message is logged and
  broadcast, every node applies it, and \<open>decide\<close> finalizes. The reassignment of
  \<open>pending[key]\<close> before the last step stores the values it read, so it changes nothing.
\<close>

definition emit_qc ::
  "session \<Rightarrow> int \<Rightarrow> string \<Rightarrow> int \<Rightarrow> int \<Rightarrow> py_error + session" where
  "emit_qc s1 view ph val global_leader_id =
     (let key = (view, ph, val);
          tw = pending_weight s1 key;
          gvs = pending_contributions s1 key;
          q = \<lparr>qc_phase = ph, qc_view = view, qc_signers = collect_signers gvs,
               qc_value = val, qc_total_weight = tw, qc_is_multi_layer = True\<rparr>;
          next_phase = get_next_phase ph;
          s2 = s1\<lparr>phase := next_phase, phase_step := phase_step s1 + 1\<rparr>;
          qm = \<lparr>qm_from = global_leader_id, qm_phase = ph,
                qm_next_phase = next_phase, qm_view = view,
                qm_round = current_round s2, qm_qc = q\<rparr>;
          s3 = s2\<lparr>messages_qc := messages_qc s2 @ [qm]\<rparr>
      in case hierarchical_broadcast s3 view global_leader_id of
           Inl e \<Rightarrow> Inl e
         | Inr s4 \<Rightarrow>
             let s5 = fold (\<lambda>node_id st. handle_qc_message st qm node_id)
                        (py_range (nodeCount (config s4))) s4
             in if next_phase = ''decide''
                then Inr (finalize_consensus s5 ''Consensus Success''
                            (''View '' @ str_int view @ '' consensus reached''))
                else Inr s5)"

text \<open>
  Case B of \<open>handle_vote\<close> (the statements after the member branch): the voter resolved
  to \<open>group_leader\<close> or \<open>root\<close>, and both roles get the same target check.
  The robots' next votes are only scheduled at the end, so they are not part of this step.
\<close>

definition handle_vote_case_b :: "session \<Rightarrow> vote_msg \<Rightarrow> py_error + session" where
  "handle_vote_case_b s m =
     (let view = vote_view s m; ph = vote_phase m; val = vm_value m in
      case get_current_leader s (Some view) of
        Inl e \<Rightarrow> Inl e
      | Inr global_leader_id \<Rightarrow>
          if vm_to m \<noteq> global_leader_id then Inr s
          else
            let key = (view, ph, val);
                s1 = add_pending s key (contribution_of m)
            in if ph \<noteq> phase s1 then Inr s1
               else if pending_weight s1 key < get_quorum_threshold s1 then Inr s1
               else emit_qc s1 view ph val global_leader_id)"

text \<open>
  The member branch keeps the voters of a group in a Python set; the model keeps them
  as a list without repetition, in order of arrival.
\<close>

definition set_add :: "int \<Rightarrow> int list \<Rightarrow> int list" where
  "set_add x xs = (if x \<in> set xs then xs else xs @ [x])"

definition group_voters_of :: "session \<Rightarrow> (int \<times> string \<times> int \<times> int) \<Rightarrow> int list" where
  "group_voters_of s key = (case pending_group_votes s key of None \<Rightarrow> [] | Some vs \<Rightarrow> vs)"

definition add_group_voter :: "session \<Rightarrow> (int \<times> string \<times> int \<times> int) \<Rightarrow> int \<Rightarrow> session" where
  "add_group_voter s key voter =
     s\<lparr>pending_group_votes :=
         (pending_group_votes s)(key \<mapsto> set_add voter (group_voters_of s key))\<rparr>"

text \<open>The GroupVote dictionary that the group leader sends to the global leader.\<close>

definition group_vote_message ::
  "session \<Rightarrow> vote_msg \<Rightarrow> int \<Rightarrow> int \<Rightarrow> int \<Rightarrow> int \<Rightarrow> int list \<Rightarrow> vote_msg" where
  "group_vote_message s m view group_leader_id global_leader_id gid group_voters =
     \<lparr>vm_from = group_leader_id, vm_to = global_leader_id,
      vm_value = vm_value m, vm_phase = Some (vote_phase m),
      vm_view = Some view, vm_round = current_round s,
      vm_is_group_vote = True,
      vm_weight = Some (int (length group_voters)),
      vm_group_id = Some gid,
      vm_group_voters = Some group_voters\<rparr>"

text \<open>
  \<open>handle_vote\<close> calls itself once, in the member branch, with the GroupVote it has
  just built. The sender of that GroupVote is the first node of the member's group,
  which never resolves to \<open>member\<close>, so the recursion ends after one call.
\<close>

definition is_member_vote :: "session \<Rightarrow> vote_msg \<Rightarrow> bool" where
  "is_member_vote s m =
     (case get_topology_info s (vm_from m) (Some (vote_view s m)) of
        Inr (Member _ _ _) \<Rightarrow> True
      | _ \<Rightarrow> False)"

lemma get_topology_info_unfold:
  "get_topology_info s v (Some view) =
     (let n = nodeCount (config s);
          gs = max 1 (n div max 1 (branchCount (config s)))
      in if n = 0 then Inl ZeroDivisionError
         else if v = view mod n then Inr Root
         else if v = v div gs * gs \<and> v \<noteq> view mod n
           then Inr (Group_leader (view mod n) (v div gs)
                      (max 0 (min ((v div gs + 1) * gs) n - v div gs * gs)))
           else Inr (Member (v div gs * gs) (v div gs)
                      (max 0 (min ((v div gs + 1) * gs) n - v div gs * gs))))"
  by (simp only: get_topology_info_def Let_def option.case)

lemma group_leader_not_member:
  assumes m: "get_topology_info s voter (Some view) = Inr (Member p gid sz)"
    and cfg: "config s' = config s"
  shows "get_topology_info s' p (Some view) \<noteq> Inr (Member p' gid' sz')"
proof -
  define n where "n = nodeCount (config s)"
  define gs where "gs = max 1 (n div max 1 (branchCount (config s)))"
  have gs1: "1 \<le> gs" by (simp add: gs_def)
  have u: "get_topology_info s voter (Some view) =
      (if n = 0 then Inl ZeroDivisionError
       else if voter = view mod n then Inr Root
       else if voter = voter div gs * gs \<and> voter \<noteq> view mod n
         then Inr (Group_leader (view mod n) (voter div gs)
                    (max 0 (min ((voter div gs + 1) * gs) n - voter div gs * gs)))
         else Inr (Member (voter div gs * gs) (voter div gs)
                    (max 0 (min ((voter div gs + 1) * gs) n - voter div gs * gs))))"
    by (simp only: get_topology_info_unfold Let_def n_def gs_def)
  have n0: "n \<noteq> 0"
    using m unfolding u by (cases "n = 0") simp_all
  have p: "p = voter div gs * gs"
    using m n0 unfolding u by (auto split: if_splits)
  have "p div gs = voter div gs" using gs1 unfolding p by simp
  then have pfix: "p = p div gs * gs" using p by simp
  have u': "get_topology_info s' p (Some view) =
      (if n = 0 then Inl ZeroDivisionError
       else if p = view mod n then Inr Root
       else if p = p div gs * gs \<and> p \<noteq> view mod n
         then Inr (Group_leader (view mod n) (p div gs)
                    (max 0 (min ((p div gs + 1) * gs) n - p div gs * gs)))
         else Inr (Member (p div gs * gs) (p div gs)
                    (max 0 (min ((p div gs + 1) * gs) n - p div gs * gs))))"
    by (simp only: get_topology_info_unfold Let_def n_def gs_def cfg)
  show ?thesis
  proof (cases "p = view mod n")
    case True
    then show ?thesis unfolding u' using n0 by simp
  next
    case False
    then have "get_topology_info s' p (Some view) =
        Inr (Group_leader (view mod n) (p div gs)
               (max 0 (min ((p div gs + 1) * gs) n - p div gs * gs)))"
      unfolding u' using n0 pfix by (simp only: if_False if_True simp_thms)
    then show ?thesis by simp
  qed
qed

function handle_vote :: "session \<Rightarrow> vote_msg \<Rightarrow> py_error + session" where
  "handle_vote s m =
     (let view = vote_view s m; cv = current_view s in
      if view > cv then buffer_vote s view m
      else if view < cv then Inr s
      else
        case get_topology_info s (vm_from m) (Some view) of
          Inl e \<Rightarrow> Inl e
        | Inr (Member group_leader_id gid grp_size) \<Rightarrow>
            if vm_to m \<noteq> group_leader_id then Inr s
            else
              let key = (view, vote_phase m, vm_value m, group_leader_id);
                  s1 = add_group_voter s key (vm_from m);
                  group_voters = group_voters_of s1 key;
                  local_threshold = get_local_quorum_threshold s1 grp_size
              in if int (length group_voters) < local_threshold then Inr s1
                 else
                   (case get_current_leader s1 (Some view) of
                      Inl e \<Rightarrow> Inl e
                    | Inr global_leader_id \<Rightarrow>
                        let gv = group_vote_message s1 m view group_leader_id
                                   global_leader_id gid group_voters;
                            s2 = s1\<lparr>messages_vote := messages_vote s1 @ [gv]\<rparr>
                        in handle_vote s2 gv)
        | Inr _ \<Rightarrow> handle_vote_case_b s m)"
  by pat_completeness auto
termination
proof (relation "measure (\<lambda>(s, m). if is_member_vote s m then 1 else 0)", goal_cases)
  case 1
  show ?case by simp
next
  case (2 s m view cv x2 x21 x22 x23 key s1 group_voters local_threshold x2a gv s2)
  have a: "is_member_vote s m"
    using 2 by (simp add: is_member_vote_def)
  have cfg: "config s2 = config s" using 2 by (simp add: add_group_voter_def)
  have "get_topology_info s2 x21 (Some view) \<noteq> Inr (Member p' g' z')" for p' g' z'
    using group_leader_not_member [OF _ cfg] 2 by blast
  moreover have "vm_from gv = x21" "vm_view gv = Some view"
    using 2 by (simp_all add: group_vote_message_def)
  ultimately have b: "\<not> is_member_vote s2 gv"
    by (auto simp: is_member_vote_def vote_view_def split: sum.splits topology_info.splits)
  from a b show ?case by simp
qed

declare handle_vote.simps [simp del]

subsection \<open>PRE-PREPARE emission and view change\<close>

fun mark_received :: "int \<Rightarrow> int list \<Rightarrow> session \<Rightarrow> py_error + session" where
  "mark_received proposer_id [] s = Inr s"
| "mark_received proposer_id (robot_id # rs) s =
     (if robot_id \<noteq> proposer_id then
        (case robot_node_states s robot_id of
           None \<Rightarrow> Inl KeyError
         | Some st \<Rightarrow>
             mark_received proposer_id rs
               (s\<lparr>robot_node_states :=
                    (robot_node_states s)(robot_id \<mapsto> st\<lparr>received_pre_prepare := True\<rparr>)\<rparr>))
      else mark_received proposer_id rs s)"

text \<open>
  \<open>robot_send_pre_prepare\<close>. The one-second sleep before the phase change and the
  scheduled robot votes are not modelled: the call is taken as one step.
\<close>

definition robot_send_pre_prepare :: "session \<Rightarrow> qc option \<Rightarrow> py_error + session" where
  "robot_send_pre_prepare s high_qc =
     (let cv = current_view s in
      if last_pre_prepare_view s = Some cv then Inr s
      else
        let s1 = s\<lparr>last_pre_prepare_view := Some cv\<rparr> in
        case get_current_leader s1 None of
          Inl e \<Rightarrow> Inl e
        | Inr proposer_id \<Rightarrow>
            if proposer_id \<notin> set (robot_nodes s1) then Inr s1
            else
              let proposal_value =
                    (case high_qc of None \<Rightarrow> proposalValue (config s1) | Some q \<Rightarrow> qc_value q);
                  message = \<lparr>pm_from = proposer_id, pm_value = proposal_value, pm_view = cv,
                             pm_round = current_round s1, pm_qc = high_qc\<rparr>;
                  s2 = s1\<lparr>messages_pre_prepare := messages_pre_prepare s1 @ [message]\<rparr>
              in case hierarchical_broadcast s2 cv proposer_id of
                   Inl e \<Rightarrow> Inl e
                 | Inr s3 \<Rightarrow>
                     let s4 = s3\<lparr>phase := ''prepare'', phase_step := 1\<rparr>;
                         s5 = s4\<lparr>timeout_task := Some \<lparr>tt_view = cv, tt_cancelled = False\<rparr>\<rparr>
                     in mark_received proposer_id (robot_nodes s5) s5)"

text \<open>The loop of \<open>start_new_view_consensus\<close> that picks the highest QC.\<close>

definition select_high_qc :: "(int \<times> new_view_msg) list \<Rightarrow> qc option" where
  "select_high_qc nvs =
     fst (fold (\<lambda>(node_id, new_view_msg) (hq, max_view).
                  case nv_highQC new_view_msg of
                    None \<Rightarrow> (hq, max_view)
                  | Some q \<Rightarrow> if qc_view q > max_view then (Some q, qc_view q)
                              else (hq, max_view))
            nvs (None, - 1))"

definition start_new_view_consensus :: "session \<Rightarrow> int \<Rightarrow> py_error + session" where
  "start_new_view_consensus s view =
     (case get_current_leader s (Some view) of
        Inl e \<Rightarrow> Inl e
      | Inr ldr \<Rightarrow>
          let pnv = (case pending_new_views s view of None \<Rightarrow> [] | Some d \<Rightarrow> d);
              n = nodeCount (config s);
              f = (n - 1) div 3;
              threshold = 2 * f + 1
          in if int (length pnv) < threshold then Inr s
             else
               let hq = select_high_qc pnv in
               if ldr \<in> set (robot_nodes s) then robot_send_pre_prepare s hq else Inr s)"

definition reset_robot_state :: robot_state where
  "reset_robot_state =
     \<lparr>received_pre_prepare = False, received_prepare_count = 0,
      received_commit_count = 0, sent_prepare = False, sent_commit = False\<rparr>"

text \<open>One round of the loop of \<open>trigger_view_change\<close> over \<open>range(n)\<close>.\<close>

definition send_new_view :: "int \<Rightarrow> int \<Rightarrow> int \<Rightarrow> session \<Rightarrow> int \<Rightarrow> session" where
  "send_new_view new_view old_view next_leader_id s node_id =
     (let hq = (case node_states s node_id of None \<Rightarrow> None | Some ns \<Rightarrow> highQC ns);
          msg = \<lparr>nv_from = node_id, nv_to = next_leader_id, nv_view = new_view,
                 nv_old_view = old_view, nv_round = current_round s, nv_highQC = hq\<rparr>;
          s1 = s\<lparr>messages_new_view := messages_new_view s @ [msg]\<rparr>
      in if node_id = next_leader_id then s1
         else
           let d = (case pending_new_views s1 new_view of None \<Rightarrow> [] | Some d \<Rightarrow> d);
               s2 = s1\<lparr>pending_new_views :=
                         (pending_new_views s1)(new_view \<mapsto> AList.update node_id msg d)\<rparr>
           in count_message_sent s2 False None)"

text \<open>The replay loop at the end of \<open>trigger_view_change\<close>.\<close>

fun replay_votes :: "session \<Rightarrow> vote_msg list \<Rightarrow> py_error + session" where
  "replay_votes s [] = Inr s"
| "replay_votes s (vote_msg # rest) =
     (case handle_vote s vote_msg of
        Inl e \<Rightarrow> Inl e
      | Inr s1 \<Rightarrow> replay_votes s1 rest)"

text \<open>
  Everything \<open>trigger_view_change\<close> does before it looks at the buffer: the new view and
  leader, the robots' flags, the NEW-VIEW messages and \<open>start_new_view_consensus\<close>.
\<close>

definition enter_new_view :: "session \<Rightarrow> int \<Rightarrow> py_error + session" where
  "enter_new_view s old_view =
     (let new_view = old_view + 1 in
      case get_current_leader s (Some new_view) of
        Inl e \<Rightarrow> Inl e
      | Inr next_leader_id \<Rightarrow>
          let s1 = s\<lparr>current_view := new_view, leader_id := next_leader_id\<rparr>;
              s2 = fold (\<lambda>robot_id st.
                           st\<lparr>robot_node_states :=
                                (robot_node_states st)(robot_id \<mapsto> reset_robot_state)\<rparr>)
                     (robot_nodes s1) s1;
              s3 = fold (\<lambda>node_id st. send_new_view new_view old_view next_leader_id st node_id)
                     (py_range (nodeCount (config s2))) s2
          in start_new_view_consensus s3 new_view)"

text \<open>
  A buffer entry that is a per-node dictionary is iterated by its keys, and
  \<open>handle_vote\<close> then fails on the first key, which is an integer.
\<close>

definition trigger_view_change :: "session \<Rightarrow> int \<Rightarrow> py_error + session" where
  "trigger_view_change s old_view =
     (let new_view = old_view + 1 in
      case enter_new_view s old_view of
        Inl e \<Rightarrow> Inl e
      | Inr s4 \<Rightarrow>
          (case message_buffer s4 new_view of
             None \<Rightarrow> Inr s4
           | Some (VoteList buffered_votes) \<Rightarrow>
               (case replay_votes s4 buffered_votes of
                  Inl e \<Rightarrow> Inl e
                | Inr s5 \<Rightarrow> Inr (s5\<lparr>message_buffer := (message_buffer s5)(new_view := None)\<rparr>))
           | Some (NodeBuffer []) \<Rightarrow>
               Inr (s4\<lparr>message_buffer := (message_buffer s4)(new_view := None)\<rparr>)
           | Some (NodeBuffer (_ # _)) \<Rightarrow> Inl AttributeError))"

section \<open>consensus\_service.py\<close>

text \<open>
  \<open>ConsensusService\<close> is the same logic without the transport. Its methods return a
  dictionary next to the session they update; the model returns the pair.
\<close>

record routing =
  rt_global_leader :: int
  rt_group_leaders :: "int list"
  rt_members_by_group_leader :: "(int \<times> int list) list"

record global_result =
  gr_status :: string
  gr_qc_message :: "qc_msg option"
  gr_next_phase :: "string option"
  gr_total_weight :: int
  gr_threshold :: int
  gr_routing :: "routing option"

record vote_result =
  vr_status :: string
  vr_group_vote :: "vote_msg option"
  vr_qc_message :: "qc_msg option"
  vr_routing :: "routing option"

definition role_of :: "topology_info \<Rightarrow> string" where
  "role_of info =
     (case info of
        Root \<Rightarrow> ''root''
      | Group_leader _ _ _ \<Rightarrow> ''group_leader''
      | Member _ _ _ \<Rightarrow> ''member'')"

definition handle_qc_for_node :: "session \<Rightarrow> qc_msg \<Rightarrow> int \<Rightarrow> session" where
  "handle_qc_for_node s qm node_id =
     (let q = qm_qc qm;
          s1 = update_node_prepare_qc s node_id q
      in if qc_phase q = ''commit'' then update_node_locked_qc s1 node_id q else s1)"

definition handle_qc_for_all_nodes :: "session \<Rightarrow> qc_msg \<Rightarrow> session" where
  "handle_qc_for_all_nodes s qm =
     fold (\<lambda>node_id st. handle_qc_for_node st qm node_id) (py_range (nodeCount (config s))) s"

text \<open>
  \<open>_process_member_vote\<close>. It is called for a voter that resolved to \<open>member\<close>; for
  \<open>root\<close> the parent is \<open>None\<close> and no integer target equals it.
\<close>

definition process_member_vote ::
  "session \<Rightarrow> topology_info \<Rightarrow> vote_msg \<Rightarrow> py_error + (session \<times> string \<times> vote_msg option)" where
  "process_member_vote s voter_info m =
     (let view = vote_view s m; ph = vote_phase m; val = vm_value m; voter = vm_from m in
      case voter_info of
        Root \<Rightarrow> Inr (s, ''invalid_target'', None)
      | _ \<Rightarrow>
          let group_leader_id = parent_id voter_info in
          if vm_to m \<noteq> group_leader_id then Inr (s, ''invalid_target'', None)
          else
            let key = (view, ph, val, group_leader_id);
                s1 = add_group_voter s key voter;
                group_voters = group_voters_of s1 key;
                local_threshold = get_local_quorum_threshold s1 (group_size voter_info)
            in if int (length group_voters) < local_threshold then Inr (s1, ''pending'', None)
               else
                 (case get_current_leader s1 (Some view) of
                    Inl e \<Rightarrow> Inl e
                  | Inr global_leader_id \<Rightarrow>
                      let gv = group_vote_message s1 m view group_leader_id
                                 global_leader_id (group_id voter_info) group_voters;
                          s2 = s1\<lparr>messages_vote := messages_vote s1 @ [gv]\<rparr>
                      in Inr (s2, ''group_vote_generated'', Some gv)))"

definition invalid_target_result :: global_result where
  "invalid_target_result =
     \<lparr>gr_status = ''invalid_target'', gr_qc_message = None, gr_next_phase = None,
      gr_total_weight = 0, gr_threshold = 0, gr_routing = None\<rparr>"

fun members_by_group_leader ::
  "session \<Rightarrow> int \<Rightarrow> int \<Rightarrow> int \<Rightarrow> int list \<Rightarrow> py_error + (int \<times> int list) list" where
  "members_by_group_leader s view grp_size n [] = Inr []"
| "members_by_group_leader s view grp_size n (gl_id # gls) =
     (case get_topology_info s gl_id (Some view) of
        Inl e \<Rightarrow> Inl e
      | Inr Root \<Rightarrow> Inl TypeError
      | Inr gl_info \<Rightarrow>
          let gid = group_id gl_info;
              group_start_id = gid * grp_size;
              group_end_id = min ((gid + 1) * grp_size) n
          in case members_by_group_leader s view grp_size n gls of
               Inl e \<Rightarrow> Inl e
             | Inr rest \<Rightarrow> Inr ((gl_id, [group_start_id + 1..group_end_id - 1]) # rest))"

text \<open>\<open>_process_global_vote\<close>.\<close>

definition process_global_vote ::
  "session \<Rightarrow> vote_msg \<Rightarrow> string \<Rightarrow> topology_info \<Rightarrow> py_error + (session \<times> global_result)" where
  "process_global_vote s m voter_role voter_info =
     (let view = vote_view s m; ph = vote_phase m; val = vm_value m in
      case get_current_leader s (Some view) of
        Inl e \<Rightarrow> Inl e
      | Inr global_leader_id \<Rightarrow>
          if voter_role = ''group_leader'' \<and> vm_to m \<noteq> global_leader_id
            then Inr (s, invalid_target_result)
          else if voter_role \<noteq> ''group_leader'' \<and> voter_role = ''root''
                  \<and> vm_to m \<noteq> global_leader_id
            then Inr (s, invalid_target_result)
          else if voter_role \<noteq> ''group_leader'' \<and> voter_role \<noteq> ''root''
            then Inr (s, invalid_target_result)
          else
            let key = (view, ph, val);
                s1 = add_pending s key (contribution_of m);
                threshold = get_quorum_threshold s1;
                tw = pending_weight s1 key;
                gvs = pending_contributions s1 key
            in if tw < threshold then
                 Inr (s1, \<lparr>gr_status = ''pending'', gr_qc_message = None, gr_next_phase = None,
                           gr_total_weight = tw, gr_threshold = threshold, gr_routing = None\<rparr>)
               else
                 let q = \<lparr>qc_phase = ph, qc_view = view, qc_signers = collect_signers gvs,
                          qc_value = val, qc_total_weight = tw, qc_is_multi_layer = True\<rparr>;
                     next_phase = get_next_phase ph;
                     s2 = s1\<lparr>phase := next_phase, phase_step := phase_step s1 + 1\<rparr>;
                     qm = \<lparr>qm_from = global_leader_id, qm_phase = ph,
                           qm_next_phase = next_phase, qm_view = view,
                           qm_round = current_round s2, qm_qc = q\<rparr>;
                     s3 = s2\<lparr>messages_qc := messages_qc s2 @ [qm]\<rparr>;
                     n = nodeCount (config s3);
                     branch_count = branchCount (config s3)
                 in if branch_count = 0 then Inl ZeroDivisionError
                    else
                      let grp_size = max 1 (n div branch_count);
                          group_leaders =
                            collect_group_leaders n branch_count grp_size global_leader_id
                      in case members_by_group_leader s3 view grp_size n group_leaders of
                           Inl e \<Rightarrow> Inl e
                         | Inr members \<Rightarrow>
                             Inr (s3, \<lparr>gr_status = ''qc_generated'', gr_qc_message = Some qm,
                                       gr_next_phase = Some next_phase,
                                       gr_total_weight = tw, gr_threshold = threshold,
                                       gr_routing = Some
                                         \<lparr>rt_global_leader = global_leader_id,
                                          rt_group_leaders = group_leaders,
                                          rt_members_by_group_leader = members\<rparr>\<rparr>))"

text \<open>\<open>ConsensusService.handle_vote\<close>.\<close>

definition service_handle_vote :: "session \<Rightarrow> vote_msg \<Rightarrow> py_error + (session \<times> vote_result)" where
  "service_handle_vote s m =
     (let view = vote_view s m; cv = current_view s in
      if view > cv then
        (case buffer_vote s view m of
           Inl e \<Rightarrow> Inl e
         | Inr s1 \<Rightarrow> Inr (s1, \<lparr>vr_status = ''buffered'', vr_group_vote = None,
                               vr_qc_message = None, vr_routing = None\<rparr>))
      else if view < cv then
        Inr (s, \<lparr>vr_status = ''ignored'', vr_group_vote = None,
                 vr_qc_message = None, vr_routing = None\<rparr>)
      else
        case get_topology_info s (vm_from m) (Some view) of
          Inl e \<Rightarrow> Inl e
        | Inr voter_info \<Rightarrow>
            let voter_role = role_of voter_info in
            if voter_role = ''member'' then
              (case process_member_vote s voter_info m of
                 Inl e \<Rightarrow> Inl e
               | Inr (s1, st, gv) \<Rightarrow>
                   (case gv of
                      None \<Rightarrow> Inr (s1, \<lparr>vr_status = st, vr_group_vote = None,
                                        vr_qc_message = None, vr_routing = None\<rparr>)
                    | Some group_vote \<Rightarrow>
                        if st \<noteq> ''group_vote_generated'' then
                          Inr (s1, \<lparr>vr_status = st, vr_group_vote = Some group_vote,
                                    vr_qc_message = None, vr_routing = None\<rparr>)
                        else
                          (case process_global_vote s1 group_vote ''group_leader'' voter_info of
                             Inl e \<Rightarrow> Inl e
                           | Inr (s2, global_res) \<Rightarrow>
                               Inr (s2,
                                 \<lparr>vr_status =
                                    (if gr_status global_res = ''qc_generated''
                                     then ''qc_generated'' else ''group_vote_generated''),
                                  vr_group_vote = Some group_vote,
                                  vr_qc_message = gr_qc_message global_res,
                                  vr_routing = gr_routing global_res\<rparr>))))
            else if voter_role = ''group_leader'' \<or> voter_role = ''root'' then
              (case process_global_vote s m voter_role voter_info of
                 Inl e \<Rightarrow> Inl e
               | Inr (s1, global_res) \<Rightarrow>
                   Inr (s1, \<lparr>vr_status = gr_status global_res, vr_group_vote = None,
                             vr_qc_message = gr_qc_message global_res,
                             vr_routing = gr_routing global_res\<rparr>))
            else Inr (s, \<lparr>vr_status = ''ignored'', vr_group_vote = None,
                          vr_qc_message = None, vr_routing = None\<rparr>))"

text \<open>\<open>finalize_consensus_state\<close>: the result dictionary and the history item it returns.\<close>

definition finalize_consensus_state ::
  "session \<Rightarrow> string \<Rightarrow> string \<Rightarrow> session \<times> consensus_result option \<times> history_item option" where
  "finalize_consensus_state s st descr =
     (let cv = current_view s in
      if consensus_finalized_view s = Some cv then
        (s, consensus_result s,
         (if consensus_history s \<noteq> [] then Some (last (consensus_history s)) else None))
      else
        let s1 = s\<lparr>consensus_finalized_view := Some cv\<rparr>;
            s3 = s1\<lparr>phase := ''completed'', phase_step := 4, status := ''completed''\<rparr>;
            res = build_consensus_result s3 st descr;
            s4 = s3\<lparr>consensus_result := Some res\<rparr>;
            item = \<lparr>h_round = current_round s4, h_view = current_view s4, h_status = st,
                    h_description = descr, h_stats = cr_stats res\<rparr>
        in (s4\<lparr>consensus_history := consensus_history s4 @ [item]\<rparr>, Some res, Some item))"

section \<open>Runs on concrete sessions\<close>

text \<open>
  A driver that hands a list of votes to \<open>ConsensusService.handle_vote\<close> one after the
  other, as \<open>replay_votes\<close> does for \<open>handle_vote\<close>, and the sessions and votes that
  the evaluated theorems use.
\<close>

fun service_handle_votes :: "session \<Rightarrow> vote_msg list \<Rightarrow> py_error + session" where
  "service_handle_votes s [] = Inr s"
| "service_handle_votes s (vote_msg # rest) =
     (case service_handle_vote s vote_msg of
        Inl e \<Rightarrow> Inl e
      | Inr (s1, _) \<Rightarrow> service_handle_votes s1 rest)"

text \<open>A session in its first view, once the proposal is out and the phase is \<open>prepare\<close>.\<close>

definition running_session :: "config \<Rightarrow> session" where
  "running_session cfg =
     (new_session cfg)\<lparr>status := ''running'', phase := ''prepare'', phase_step := 1\<rparr>"

text \<open>The vote that \<open>send_prepare\<close>, \<open>send_commit\<close> and the robots build: no group keys.\<close>

definition plain_vote :: "int \<Rightarrow> int \<Rightarrow> string \<Rightarrow> int \<Rightarrow> int \<Rightarrow> vote_msg" where
  "plain_vote sender target ph view val =
     \<lparr>vm_from = sender, vm_to = target, vm_value = val, vm_phase = Some ph,
      vm_view = Some view, vm_round = 1, vm_is_group_vote = False, vm_weight = None,
      vm_group_id = None, vm_group_voters = None\<rparr>"

definition config_n4 :: config where
  "config_n4 = \<lparr>nodeCount = 4, branchCount = 2, proposalValue = 7\<rparr>"

definition config_n7 :: config where
  "config_n7 = \<lparr>nodeCount = 7, branchCount = 2, proposalValue = 7\<rparr>"

text \<open>
  Seven nodes in groups of three, leader 0: the members 1, 2, 4 and 5 each vote once
  for value 7 in \<open>prepare\<close>. Four nodes in groups of two, leader 0: the members 1 and 3,
  the group leader 2 and the leader itself each vote once.
\<close>

definition votes_n7 :: "vote_msg list" where
  "votes_n7 =
     [plain_vote 1 0 ''prepare'' 0 7, plain_vote 2 0 ''prepare'' 0 7,
      plain_vote 4 3 ''prepare'' 0 7, plain_vote 5 3 ''prepare'' 0 7]"

definition votes_n4 :: "vote_msg list" where
  "votes_n4 =
     [plain_vote 1 0 ''prepare'' 0 7, plain_vote 3 2 ''prepare'' 0 7,
      plain_vote 2 0 ''prepare'' 0 7, plain_vote 0 0 ''prepare'' 0 7]"


definition robot_session :: session where
  "robot_session =
     (new_session config_n4)
       \<lparr>status := ''running'', phase := ''new-view'',
        robot_nodes := [0, 1, 2, 3],
        robot_node_states :=
          [0 \<mapsto> reset_robot_state, 1 \<mapsto> reset_robot_state,
           2 \<mapsto> reset_robot_state, 3 \<mapsto> reset_robot_state]\<rparr>"

text \<open>The identity \<open>(phase, view, value)\<close> of the QC in a QC message.\<close>

definition qc_key :: "qc_msg \<Rightarrow> int \<times> string \<times> int" where
  "qc_key qm = (qc_view (qm_qc qm), qc_phase (qm_qc qm), qc_value (qm_qc qm))"

text \<open>Node 2 of a four-node session holds a lock of view 5 on value 7.\<close>

definition locked_qc_example :: qc where
  "locked_qc_example =
     \<lparr>qc_phase = ''commit'', qc_view = 5, qc_signers = [1, 2, 3], qc_value = 7,
      qc_total_weight = 3, qc_is_multi_layer = True\<rparr>"

definition locked_session :: session where
  "locked_session =
     (new_session config_n4)
       \<lparr>node_states := (node_states (new_session config_n4))
          (2 \<mapsto> \<lparr>lockedQC = Some locked_qc_example, prepareQC = None,
                   currentView = 0, highQC = None\<rparr>)\<rparr>"

text \<open>The four-node session after a round in which eight messages were counted.\<close>

definition counted_session :: session where
  "counted_session = (running_session config_n4)\<lparr>total_messages_sent := 8\<rparr>"

section \<open>The specification's formulations\<close>

text \<open>
  These definitions follow the wording of the specification, not the code; the
  theorems below compare them with the definitions above.
\<close>

definition qcExtends_spec :: "qc option \<Rightarrow> qc option \<Rightarrow> bool" where
  "qcExtends_spec a b \<longleftrightarrow>
     b = None \<or>
     (\<exists>qa qb. a = Some qa \<and> b = Some qb \<and>
        qc_view qa > qc_view qb \<and> qc_value qa = qc_value qb)"

definition safeNode_spec :: "qc option \<Rightarrow> int \<Rightarrow> int \<Rightarrow> qc option \<Rightarrow> bool" where
  "safeNode_spec locked pview pvalue pqc =
     (case locked of
        None \<Rightarrow> True
      | Some l \<Rightarrow>
          if pview > qc_view l then True
          else (case pqc of
                  Some q \<Rightarrow> qcExtends_spec (Some q) (Some l)
                | None \<Rightarrow> pvalue = qc_value l \<and> pview \<ge> qc_view l))"




text \<open>
  \<open>lockedQC.view\<close> does not decrease from one session state to a later one: a node
  that holds a lock still holds one, of the same or a higher view.
\<close>

definition locked_nondecreasing :: "session \<Rightarrow> session \<Rightarrow> bool" where
  "locked_nondecreasing s s' \<longleftrightarrow>
     (\<forall>node_id l. locked_of s node_id = Some l \<longrightarrow>
        (\<exists>l'. locked_of s' node_id = Some l' \<and> qc_view l \<le> qc_view l'))"


text \<open>
  What no step of vote handling changes: the configuration and the current view; and
  no lock regresses.
\<close>

definition vote_frame :: "session \<Rightarrow> session \<Rightarrow> bool" where
  "vote_frame s s' \<longleftrightarrow>
     config s' = config s \<and> current_view s' = current_view s \<and> locked_nondecreasing s s'"

section \<open>Safety predicate\<close>

lemma qc_extends_spec: "qc_extends a b = qcExtends_spec a b"
  by (cases a; cases b) (auto simp: qcExtends_spec_def)

text \<open>
  Claim C1. \<open>check_safe_node\<close> decides as the specification's SafeNode does, in the same
  order, on the node's \<open>lockedQC\<close>; \<open>qc_extends\<close> is the specification's \<open>qcExtends\<close>; and
  for a node locked on a QC of view \<open>v\<close>, every proposal of view at most \<open>v\<close> with a
  different value and a QC that does not extend the lock is refused.
\<close>

theorem check_safe_node_follows_spec:
  "check_safe_node s node_id pv pval pqc = safeNode_spec (locked_of s node_id) pv pval pqc
   \<and> qc_extends a b = qcExtends_spec a b
   \<and> (\<forall>l. locked_of s node_id = Some l \<longrightarrow> pv \<le> qc_view l \<longrightarrow> pval \<noteq> qc_value l
          \<longrightarrow> \<not> qc_extends pqc (Some l) \<longrightarrow> \<not> check_safe_node s node_id pv pval pqc)"
  by (cases pqc)
    (auto simp: check_safe_node_def safeNode_spec_def qc_extends_spec split: option.splits)

lemma locked_session_lock: "locked_of locked_session 2 = Some locked_qc_example"
  by (simp add: locked_session_def locked_of_def)

theorem check_safe_node_follows_spec_witness:
  "locked_of locked_session 2 = Some locked_qc_example
   \<and> 4 \<le> qc_view locked_qc_example \<and> 9 \<noteq> qc_value locked_qc_example
   \<and> \<not> qc_extends None (Some locked_qc_example)
   \<and> \<not> check_safe_node locked_session 2 4 9 None
   \<and> check_safe_node locked_session 2 6 9 None"
proof -
  have v: "qc_view locked_qc_example = 5" "qc_value locked_qc_example = 7"
    by (simp_all add: locked_qc_example_def)
  have "\<not> check_safe_node locked_session 2 4 9 None"
    using check_safe_node_follows_spec [of locked_session 2 4 9 None None None]
      locked_session_lock v
    by (simp add: safeNode_spec_def)
  moreover have "check_safe_node locked_session 2 6 9 None"
    using check_safe_node_follows_spec [of locked_session 2 6 9 None None None]
      locked_session_lock v
    by (simp add: safeNode_spec_def)
  ultimately show ?thesis using locked_session_lock v by simp
qed

section \<open>Topology resolver\<close>





section \<open>Complexity report\<close>




section \<open>Frame lemmas\<close>

lemma count_message_sent_frame: "\<exists>k. count_message_sent s b t = s\<lparr>total_messages_sent := k\<rparr>"
  by (simp add: count_message_sent_def Let_def) blast

lemma get_topology_info_counter [simp]:
  "get_topology_info (s\<lparr>total_messages_sent := k\<rparr>) v view = get_topology_info s v view"
  by (cases view) (simp_all add: get_topology_info_def)

lemma forward_to_members_frame:
  "forward_to_members view g n gls s = Inr s' \<Longrightarrow> \<exists>k. s' = s\<lparr>total_messages_sent := k\<rparr>"
proof (induction gls arbitrary: s)
  case Nil
  then have "s' = s\<lparr>total_messages_sent := total_messages_sent s\<rparr>" by simp
  then show ?case by blast
next
  case (Cons gl gls)
  from Cons.prems obtain info where
    i: "get_topology_info s gl (Some view) = Inr info" and r: "info \<noteq> Root"
    by (auto split: sum.splits topology_info.splits)
  define c where "c = max (min ((group_id info + 1) * g) n - (group_id info * g + 1)) 0"
  define s1 where "s1 = (if c > 0 then count_message_sent s False (Some c) else s)"
  have step: "forward_to_members view g n gls s1 = Inr s'"
    using Cons.prems i r by (cases info) (auto simp: Let_def s1_def c_def split: if_splits)
  obtain k1 where k1: "s1 = s\<lparr>total_messages_sent := k1\<rparr>"
  proof (cases "c > 0")
    case True
    then show ?thesis using count_message_sent_frame [of s False "Some c"] that
      by (auto simp: s1_def)
  next
    case False
    then have "s1 = s\<lparr>total_messages_sent := total_messages_sent s\<rparr>" by (simp add: s1_def)
    then show ?thesis using that by blast
  qed
  from Cons.IH [OF step] obtain k where "s' = s1\<lparr>total_messages_sent := k\<rparr>" by blast
  then have "s' = s\<lparr>total_messages_sent := k\<rparr>" by (simp add: k1)
  then show ?case by blast
qed

lemma hierarchical_broadcast_frame:
  assumes "hierarchical_broadcast s view l = Inr s'"
  shows "\<exists>k. s' = s\<lparr>total_messages_sent := k\<rparr>"
proof -
  define n where "n = nodeCount (config s)"
  define g where "g = max 1 (n div branchCount (config s))"
  define gls where "gls = collect_group_leaders n (branchCount (config s)) g l"
  define s1 where "s1 = (if gls \<noteq> [] then count_message_sent s False (Some (int (length gls))) else s)"
  have step: "forward_to_members view g n gls s1 = Inr s'"
    using assms
    by (simp add: hierarchical_broadcast_def Let_def n_def g_def gls_def s1_def split: if_splits)
  obtain k1 where k1: "s1 = s\<lparr>total_messages_sent := k1\<rparr>"
  proof (cases "gls \<noteq> []")
    case True
    then show ?thesis using count_message_sent_frame [of s False "Some (int (length gls))"] that
      by (auto simp: s1_def)
  next
    case False
    then have "s1 = s\<lparr>total_messages_sent := total_messages_sent s\<rparr>" by (simp add: s1_def)
    then show ?thesis using that by blast
  qed
  from forward_to_members_frame [OF step] obtain k where "s' = s1\<lparr>total_messages_sent := k\<rparr>"
    by blast
  then have "s' = s\<lparr>total_messages_sent := k\<rparr>" by (simp add: k1)
  then show ?thesis by blast
qed

section \<open>Locks never regress\<close>

lemma locked_nondecreasing_refl: "locked_nondecreasing s s"
  by (simp add: locked_nondecreasing_def)

lemma locked_nondecreasing_trans:
  "locked_nondecreasing s t \<Longrightarrow> locked_nondecreasing t u \<Longrightarrow> locked_nondecreasing s u"
  unfolding locked_nondecreasing_def by (meson order_trans)

lemma locked_nondecreasing_same:
  "node_states s' = node_states s \<Longrightarrow> locked_nondecreasing s s'"
  by (simp add: locked_nondecreasing_def locked_of_def)

lemma locked_of_update_prepare:
  "locked_of (update_node_prepare_qc s i q) j = locked_of s j"
  by (simp add: update_node_prepare_qc_def locked_of_def split: option.splits)

lemma locked_of_update_locked:
  "locked_of (update_node_locked_qc s i q) j =
     (if j = i \<and> node_states s i \<noteq> None then
        (case locked_of s i of
           None \<Rightarrow> Some q
         | Some cur \<Rightarrow> if qc_view q > qc_view cur then Some q else Some cur)
      else locked_of s j)"
  by (simp add: update_node_locked_qc_def locked_of_def split: option.splits)

lemma node_states_self: "\<exists>ns. s = s\<lparr>node_states := ns\<rparr>"
  by (rule exI [of _ "node_states s"]) simp

lemma update_node_locked_qc_frame: "\<exists>ns. update_node_locked_qc s i q = s\<lparr>node_states := ns\<rparr>"
  unfolding update_node_locked_qc_def
  by (auto simp: node_states_self split: option.splits)

lemma update_node_prepare_qc_frame: "\<exists>ns. update_node_prepare_qc s i q = s\<lparr>node_states := ns\<rparr>"
  unfolding update_node_prepare_qc_def
  by (auto simp: node_states_self split: option.splits)

lemma locked_nondecreasing_update_locked:
  "locked_nondecreasing s (update_node_locked_qc s i q)"
  unfolding locked_nondecreasing_def locked_of_update_locked
  by (auto split: option.splits)

lemma handle_qc_message_frame:
  "\<exists>ns. handle_qc_message s qm i = s\<lparr>node_states := ns\<rparr>"
proof -
  obtain ns1 where a: "update_node_prepare_qc s i (qm_qc qm) = s\<lparr>node_states := ns1\<rparr>"
    using update_node_prepare_qc_frame by blast
  obtain ns2 where b: "update_node_locked_qc (s\<lparr>node_states := ns1\<rparr>) i (qm_qc qm)
      = s\<lparr>node_states := ns1\<rparr>\<lparr>node_states := ns2\<rparr>"
    using update_node_locked_qc_frame by blast
  show ?thesis
    by (cases "qc_phase (qm_qc qm) = ''commit''") (auto simp: handle_qc_message_def Let_def a b)
qed

lemma locked_of_handle_qc_message_other:
  "qc_phase (qm_qc qm) \<noteq> ''commit'' \<Longrightarrow> locked_of (handle_qc_message s qm i) j = locked_of s j"
  by (simp add: handle_qc_message_def Let_def locked_of_update_prepare)

lemma locked_nondecreasing_handle_qc_message:
  "locked_nondecreasing s (handle_qc_message s qm i)"
proof -
  have a: "locked_nondecreasing s (update_node_prepare_qc s i (qm_qc qm))"
    by (simp add: locked_nondecreasing_def locked_of_update_prepare)
  have b: "locked_nondecreasing (update_node_prepare_qc s i (qm_qc qm))
             (update_node_locked_qc (update_node_prepare_qc s i (qm_qc qm)) i (qm_qc qm))"
    by (rule locked_nondecreasing_update_locked)
  show ?thesis
    using a locked_nondecreasing_trans [OF a b] by (simp add: handle_qc_message_def Let_def)
qed

lemma fold_handle_qc_message_frame:
  "\<exists>ns. fold (\<lambda>node_id st. handle_qc_message st qm node_id) xs s = s\<lparr>node_states := ns\<rparr>"
proof (induction xs arbitrary: s)
  case Nil
  show ?case by (simp add: node_states_self)
next
  case (Cons x xs)
  obtain ns1 where a: "handle_qc_message s qm x = s\<lparr>node_states := ns1\<rparr>"
    using handle_qc_message_frame by blast
  from Cons.IH [of "s\<lparr>node_states := ns1\<rparr>"] obtain ns where
    "fold (\<lambda>node_id st. handle_qc_message st qm node_id) xs (s\<lparr>node_states := ns1\<rparr>)
       = s\<lparr>node_states := ns1\<rparr>\<lparr>node_states := ns\<rparr>" by blast
  then show ?case by (auto simp: a)
qed

lemma locked_nondecreasing_fold_handle_qc_message:
  "locked_nondecreasing s (fold (\<lambda>node_id st. handle_qc_message st qm node_id) xs s)"
proof (induction xs arbitrary: s)
  case Nil
  show ?case by (simp add: locked_nondecreasing_refl)
next
  case (Cons x xs)
  show ?case
    using locked_nondecreasing_trans [OF locked_nondecreasing_handle_qc_message Cons.IH]
    by simp
qed

lemma finalize_consensus_fields:
  "config (finalize_consensus s st d) = config s"
  "current_view (finalize_consensus s st d) = current_view s"
  "robot_nodes (finalize_consensus s st d) = robot_nodes s"
  "robot_node_states (finalize_consensus s st d) = robot_node_states s"
  "last_pre_prepare_view (finalize_consensus s st d) = last_pre_prepare_view s"
  "message_buffer (finalize_consensus s st d) = message_buffer s"
  "node_states (finalize_consensus s st d) = node_states s"
  "messages_qc (finalize_consensus s st d) = messages_qc s"
  "messages_vote (finalize_consensus s st d) = messages_vote s"
  "pending_votes (finalize_consensus s st d) = pending_votes s"
  "pending_group_votes (finalize_consensus s st d) = pending_group_votes s"
  by (simp_all add: finalize_consensus_def Let_def split: option.splits)

section \<open>One call of \<open>handle_vote\<close>\<close>

lemma vote_frame_refl: "vote_frame s s"
  by (simp add: vote_frame_def locked_nondecreasing_refl)

lemma vote_frame_trans: "vote_frame s t \<Longrightarrow> vote_frame t u \<Longrightarrow> vote_frame s u"
  unfolding vote_frame_def using locked_nondecreasing_trans by auto

lemma vote_frame_same:
  "config s' = config s \<Longrightarrow> current_view s' = current_view s
   \<Longrightarrow> node_states s' = node_states s \<Longrightarrow> vote_frame s s'"
  by (simp add: vote_frame_def locked_nondecreasing_same)

lemma get_topology_info_total:
  assumes n: "nodeCount (config s) \<noteq> 0"
  shows "\<exists>info. get_topology_info s v (Some view) = Inr info
           \<and> (v \<noteq> view mod nodeCount (config s) \<longrightarrow> info \<noteq> Root)"
proof -
  define k where "k = nodeCount (config s)"
  define gs where "gs = max 1 (k div max 1 (branchCount (config s)))"
  have u: "get_topology_info s v (Some view) =
      (if k = 0 then Inl ZeroDivisionError
       else if v = view mod k then Inr Root
       else if v = v div gs * gs \<and> v \<noteq> view mod k
         then Inr (Group_leader (view mod k) (v div gs)
                    (max 0 (min ((v div gs + 1) * gs) k - v div gs * gs)))
         else Inr (Member (v div gs * gs) (v div gs)
                    (max 0 (min ((v div gs + 1) * gs) k - v div gs * gs))))"
    by (simp only: get_topology_info_unfold Let_def k_def gs_def)
  have k0: "k \<noteq> 0" using n by (simp add: k_def)
  show ?thesis
  proof (cases "v = view mod k")
    case True
    then show ?thesis unfolding u using k0 by (simp add: k_def)
  next
    case False
    show ?thesis
    proof (cases "v = v div gs * gs \<and> v \<noteq> view mod k")
      case True
      then show ?thesis unfolding u using k0 False by (simp only: if_False if_True) simp
    next
      case b: False
      then show ?thesis unfolding u using k0 False by (simp only: if_False if_True) simp
    qed
  qed
qed

lemma get_current_leader_total:
  "nodeCount (config s) \<noteq> 0 \<Longrightarrow>
   get_current_leader s (Some view) = Inr (view mod nodeCount (config s))"
  by (simp add: get_current_leader_def)




lemma emit_qc_frame:
  assumes "emit_qc s view ph val gl = Inr s'"
  shows "vote_frame s s'"
proof -
  define qm where "qm =
     \<lparr>qm_from = gl, qm_phase = ph,
      qm_next_phase = get_next_phase ph, qm_view = view, qm_round = current_round s,
      qm_qc = \<lparr>qc_phase = ph, qc_view = view,
               qc_signers = collect_signers (pending_contributions s (view, ph, val)),
               qc_value = val, qc_total_weight = pending_weight s (view, ph, val),
               qc_is_multi_layer = True\<rparr>\<rparr>"
  define s3 where "s3 = s\<lparr>phase := get_next_phase ph, phase_step := phase_step s + 1,
                          messages_qc := messages_qc s @ [qm]\<rparr>"
  obtain s4 where hb: "hierarchical_broadcast s3 view gl = Inr s4"
    using assms by (cases "hierarchical_broadcast s3 view gl")
      (simp_all add: emit_qc_def Let_def s3_def qm_def)
  define s5 where
    "s5 = fold (\<lambda>node_id st. handle_qc_message st qm node_id) (py_range (nodeCount (config s4))) s4"
  have r: "s' = (if get_next_phase ph = ''decide''
                 then finalize_consensus s5 ''Consensus Success''
                        (''View '' @ str_int view @ '' consensus reached'')
                 else s5)"
    using assms hb by (simp add: emit_qc_def Let_def s3_def qm_def s5_def split: if_splits)
  obtain k where k: "s4 = s3\<lparr>total_messages_sent := k\<rparr>"
    using hierarchical_broadcast_frame [OF hb] by blast
  obtain ns where ns: "s5 = s4\<lparr>node_states := ns\<rparr>"
    using fold_handle_qc_message_frame [of qm "py_range (nodeCount (config s4))" s4]
    by (auto simp: s5_def)
  have l45: "locked_nondecreasing s4 s5"
    unfolding s5_def by (rule locked_nondecreasing_fold_handle_qc_message)
  have "node_states s4 = node_states s" by (simp add: k s3_def)
  then have l: "locked_nondecreasing s s5"
    using l45 by (simp add: locked_nondecreasing_def locked_of_def)
  have f5: "config s5 = config s" "current_view s5 = current_view s"
    by (simp_all add: ns k s3_def)
  have "vote_frame s s5" using f5 l by (simp add: vote_frame_def)
  moreover have "vote_frame s5 (finalize_consensus s5 st d)" for st d
    by (rule vote_frame_same) (simp_all add: finalize_consensus_fields)
  ultimately show ?thesis
    unfolding r using vote_frame_trans by (cases "get_next_phase ph = ''decide''") auto
qed

lemma add_pending_fields:
  "config (add_pending s key c) = config s"
  "current_view (add_pending s key c) = current_view s"
  "node_states (add_pending s key c) = node_states s"
  "phase (add_pending s key c) = phase s"
  "messages_qc (add_pending s key c) = messages_qc s"
  "message_buffer (add_pending s key c) = message_buffer s"
  by (simp_all add: add_pending_def Let_def)

lemma add_group_voter_fields:
  "config (add_group_voter s key v) = config s"
  "current_view (add_group_voter s key v) = current_view s"
  "node_states (add_group_voter s key v) = node_states s"
  "phase (add_group_voter s key v) = phase s"
  "messages_qc (add_group_voter s key v) = messages_qc s"
  "message_buffer (add_group_voter s key v) = message_buffer s"
  by (simp_all add: add_group_voter_def)


lemma handle_vote_case_b_frame:
  assumes "handle_vote_case_b s m = Inr s'"
  shows "vote_frame s s'"
proof -
  let ?key = "(vote_view s m, vote_phase m, vm_value m)"
  let ?s1 = "add_pending s ?key (contribution_of m)"
  have f1: "vote_frame s ?s1"
    by (rule vote_frame_same) (simp_all add: add_pending_fields)
  obtain gl where gl: "get_current_leader s (Some (vote_view s m)) = Inr gl"
    using assms by (cases "get_current_leader s (Some (vote_view s m))")
      (simp_all add: handle_vote_case_b_def Let_def)
  have body: "(if vm_to m \<noteq> gl then Inr s
               else if vote_phase m \<noteq> phase ?s1 then Inr ?s1
               else if pending_weight ?s1 ?key < get_quorum_threshold ?s1 then Inr ?s1
               else emit_qc ?s1 (vote_view s m) (vote_phase m) (vm_value m) gl) = Inr s'"
    using assms by (simp only: handle_vote_case_b_def Let_def gl sum.case)
  show ?thesis
  proof (cases "vm_to m \<noteq> gl")
    case True
    then have "s' = s" using body by simp
    then show ?thesis by (simp add: vote_frame_refl)
  next
    case t: False
    show ?thesis
    proof (cases "vote_phase m \<noteq> phase ?s1
                  \<or> pending_weight ?s1 ?key < get_quorum_threshold ?s1")
      case True
      then have "s' = ?s1" using body t by (simp split: if_splits)
      then show ?thesis using f1 by simp
    next
      case False
      then have c: "emit_qc ?s1 (vote_view s m) (vote_phase m) (vm_value m) gl = Inr s'"
        using body t by (simp split: if_splits)
      from f1 emit_qc_frame [OF c] show ?thesis by (rule vote_frame_trans)
    qed
  qed
qed

section \<open>The branches of \<open>handle_vote\<close>\<close>

lemma handle_vote_future:
  "vote_view s m > current_view s \<Longrightarrow> handle_vote s m = buffer_vote s (vote_view s m) m"
  by (subst handle_vote.simps) (simp add: Let_def)

lemma handle_vote_stale:
  "vote_view s m < current_view s \<Longrightarrow> handle_vote s m = Inr s"
  by (subst handle_vote.simps) (simp add: Let_def)

lemma handle_vote_raise:
  "vote_view s m = current_view s
   \<Longrightarrow> get_topology_info s (vm_from m) (Some (current_view s)) = Inl e
   \<Longrightarrow> handle_vote s m = Inl e"
  by (subst handle_vote.simps) (simp add: Let_def)

lemma handle_vote_root:
  "vote_view s m = current_view s
   \<Longrightarrow> get_topology_info s (vm_from m) (Some (current_view s)) = Inr Root
   \<Longrightarrow> handle_vote s m = handle_vote_case_b s m"
  by (subst handle_vote.simps) (simp add: Let_def)

lemma handle_vote_group_leader:
  "vote_view s m = current_view s
   \<Longrightarrow> get_topology_info s (vm_from m) (Some (current_view s)) = Inr (Group_leader p g z)
   \<Longrightarrow> handle_vote s m = handle_vote_case_b s m"
  by (subst handle_vote.simps) (simp add: Let_def)

lemma handle_vote_member_wrong_target:
  "vote_view s m = current_view s
   \<Longrightarrow> get_topology_info s (vm_from m) (Some (current_view s)) = Inr (Member p g z)
   \<Longrightarrow> vm_to m \<noteq> p
   \<Longrightarrow> handle_vote s m = Inr s"
  by (subst handle_vote.simps) (simp add: Let_def)

lemma handle_vote_member_pending:
  "vote_view s m = current_view s
   \<Longrightarrow> get_topology_info s (vm_from m) (Some (current_view s)) = Inr (Member p g z)
   \<Longrightarrow> vm_to m = p
   \<Longrightarrow> s1 = add_group_voter s (current_view s, vote_phase m, vm_value m, p) (vm_from m)
   \<Longrightarrow> int (length (group_voters_of s1 (current_view s, vote_phase m, vm_value m, p)))
         < get_local_quorum_threshold s1 z
   \<Longrightarrow> handle_vote s m = Inr s1"
  by (subst handle_vote.simps) (simp add: Let_def)

lemma handle_vote_member_group_vote:
  assumes v: "vote_view s m = current_view s"
    and t: "get_topology_info s (vm_from m) (Some (current_view s)) = Inr (Member p g z)"
    and to: "vm_to m = p"
    and s1: "s1 = add_group_voter s (current_view s, vote_phase m, vm_value m, p) (vm_from m)"
    and q: "\<not> int (length (group_voters_of s1 (current_view s, vote_phase m, vm_value m, p)))
              < get_local_quorum_threshold s1 z"
    and gv: "gv = group_vote_message s1 m (current_view s) p
                    (current_view s mod nodeCount (config s)) g
                    (group_voters_of s1 (current_view s, vote_phase m, vm_value m, p))"
    and s2: "s2 = s1\<lparr>messages_vote := messages_vote s1 @ [gv]\<rparr>"
  shows "handle_vote s m = handle_vote_case_b s2 gv"
proof -
  have n: "nodeCount (config s) \<noteq> 0"
    using t by (auto simp: get_topology_info_def Let_def split: if_splits)
  have cfg1: "config s1 = config s" "current_view s1 = current_view s"
    by (simp_all add: s1 add_group_voter_fields)
  have cfg2: "config s2 = config s" "current_view s2 = current_view s"
    by (simp_all add: s2 cfg1)
  have gl: "get_current_leader s1 (Some (current_view s))
              = Inr (current_view s mod nodeCount (config s))"
    using get_current_leader_total [of s1 "current_view s"] n cfg1 by simp
  have vv: "vote_view s2 gv = current_view s2"
    by (simp add: vote_view_def gv group_vote_message_def cfg2)
  have from_gv: "vm_from gv = p" by (simp add: gv group_vote_message_def)
  obtain info where i: "get_topology_info s2 p (Some (current_view s)) = Inr info"
    using get_topology_info_total [of s2 p "current_view s"] n cfg2 by auto
  have nm: "info \<noteq> Member p' g' z'" for p' g' z'
    using group_leader_not_member [OF t cfg2(1)] i by auto
  have rec: "handle_vote s2 gv = handle_vote_case_b s2 gv"
  proof (cases info)
    case Root
    then show ?thesis using handle_vote_root [OF vv] i from_gv cfg2 by simp
  next
    case (Group_leader a b c)
    then show ?thesis using handle_vote_group_leader [OF vv] i from_gv cfg2 by simp
  next
    case (Member a b c)
    then show ?thesis using nm by simp
  qed
  have "handle_vote s m = handle_vote s2 gv"
    apply (subst handle_vote.simps)
    apply (simp only: Let_def v t to sum.case topology_info.case)
    apply (simp only: s1 [symmetric] q gl sum.case if_False gv [symmetric] s2 [symmetric]
        order_less_irrefl simp_thms)
    done
  then show ?thesis by (simp add: rec)
qed

lemma buffer_vote_fields:
  assumes "buffer_vote s view m = Inr s'"
  shows "config s' = config s" "current_view s' = current_view s"
    "node_states s' = node_states s" "pending_votes s' = pending_votes s"
    "pending_group_votes s' = pending_group_votes s" "messages_qc s' = messages_qc s"
    "messages_vote s' = messages_vote s" "phase s' = phase s"
  using assms
  by (auto simp: buffer_vote_def split: option.splits buffer_entry.splits)

lemma handle_vote_frame:
  assumes "handle_vote s m = Inr s'"
  shows "vote_frame s s'"
proof -
  consider (future) "vote_view s m > current_view s" | (stale) "vote_view s m < current_view s"
    | (now) "vote_view s m = current_view s" by linarith
  then show ?thesis
  proof cases
    case future
    then have "buffer_vote s (vote_view s m) m = Inr s'"
      using assms by (simp add: handle_vote_future)
    then show ?thesis by (intro vote_frame_same buffer_vote_fields)
  next
    case stale
    then show ?thesis using assms by (simp add: handle_vote_stale vote_frame_refl)
  next
    case now
    show ?thesis
    proof (cases "get_topology_info s (vm_from m) (Some (current_view s))")
      case (Inl e)
      then show ?thesis using assms handle_vote_raise [OF now] by simp
    next
      case (Inr info)
      show ?thesis
      proof (cases info)
        case Root
        then show ?thesis
          using assms handle_vote_root [OF now] Inr handle_vote_case_b_frame by simp
      next
        case (Group_leader p g z)
        then show ?thesis
          using assms handle_vote_group_leader [OF now] Inr handle_vote_case_b_frame by simp
      next
        case (Member p g z)
        have t: "get_topology_info s (vm_from m) (Some (current_view s)) = Inr (Member p g z)"
          using Inr Member by simp
        define key where "key = (current_view s, vote_phase m, vm_value m, p)"
        define s1 where "s1 = add_group_voter s key (vm_from m)"
        have f1: "vote_frame s s1"
          by (rule vote_frame_same) (simp_all add: s1_def add_group_voter_fields)
        show ?thesis
        proof (cases "vm_to m = p")
          case False
          then show ?thesis
            using assms handle_vote_member_wrong_target [OF now t] by (simp add: vote_frame_refl)
        next
          case to: True
          show ?thesis
          proof (cases "int (length (group_voters_of s1 key)) < get_local_quorum_threshold s1 z")
            case True
            then have "handle_vote s m = Inr s1"
              using handle_vote_member_pending [OF now t to, of s1]
              by (simp add: s1_def key_def)
            then show ?thesis using assms f1 by simp
          next
            case False
            define gv where "gv = group_vote_message s1 m (current_view s) p
                    (current_view s mod nodeCount (config s)) g (group_voters_of s1 key)"
            define s2 where "s2 = s1\<lparr>messages_vote := messages_vote s1 @ [gv]\<rparr>"
            have "handle_vote s m = handle_vote_case_b s2 gv"
              using handle_vote_member_group_vote [OF now t to, of s1 gv s2] False
              by (simp add: s1_def key_def gv_def s2_def)
            then have "vote_frame s2 s'"
              using assms handle_vote_case_b_frame by simp
            moreover have "vote_frame s1 s2"
              by (rule vote_frame_same) (simp_all add: s2_def)
            ultimately show ?thesis using f1 vote_frame_trans by blast
          qed
        qed
      qed
    qed
  qed
qed


lemma replay_votes_frame:
  "replay_votes s vs = Inr s' \<Longrightarrow> vote_frame s s'"
proof (induction vs arbitrary: s)
  case Nil
  then show ?case by (simp add: vote_frame_refl)
next
  case (Cons v vs)
  from Cons.prems obtain s1 where a: "handle_vote s v = Inr s1"
    and b: "replay_votes s1 vs = Inr s'"
    by (cases "handle_vote s v") simp_all
  from handle_vote_frame [OF a] Cons.IH [OF b] show ?case by (rule vote_frame_trans)
qed


section \<open>Vote aggregation\<close>

text \<open>
  Claim C10. A vote of the current view from a voter that resolves to \<open>group_leader\<close> or
  \<open>root\<close>, addressed to the global leader, whose phase is not the session's phase:
  \<open>handle_vote\<close> returns, the tally under \<open>(view, phase, value)\<close> has grown by the
  vote's weight and by its contribution, no QC message is logged and the phase is as
  before. A plain vote weighs 1.
\<close>

theorem dropped_vote_stays_in_tally:
  assumes "vote_view s m = current_view s"
    and "get_topology_info s (vm_from m) (Some (current_view s)) = Inr info"
    and "role_of info = ''group_leader'' \<or> role_of info = ''root''"
    and "get_current_leader s (Some (current_view s)) = Inr (vm_to m)"
    and "vote_phase m \<noteq> phase s"
  shows "\<exists>s'. handle_vote s m = Inr s'
      \<and> pending_weight s' (current_view s, vote_phase m, vm_value m)
           = pending_weight s (current_view s, vote_phase m, vm_value m)
               + c_weight (contribution_of m)
      \<and> pending_contributions s' (current_view s, vote_phase m, vm_value m)
           = pending_contributions s (current_view s, vote_phase m, vm_value m)
               @ [contribution_of m]
      \<and> messages_qc s' = messages_qc s \<and> phase s' = phase s
      \<and> (\<not> vm_is_group_vote m \<longrightarrow> c_weight (contribution_of m) = 1)
      \<and> (0 < c_weight (contribution_of m) \<longrightarrow>
            pending_weight s (current_view s, vote_phase m, vm_value m)
              < pending_weight s' (current_view s, vote_phase m, vm_value m))"
proof -
  let ?key = "(current_view s, vote_phase m, vm_value m)"
  let ?s1 = "add_pending s ?key (contribution_of m)"
  have b: "handle_vote s m = handle_vote_case_b s m"
  proof (cases info)
    case Root
    then show ?thesis using handle_vote_root [OF assms(1)] assms(2) by simp
  next
    case (Group_leader p g z)
    then show ?thesis using handle_vote_group_leader [OF assms(1)] assms(2) by simp
  next
    case (Member p g z)
    then show ?thesis using assms(3) by (simp add: role_of_def)
  qed
  have r: "handle_vote_case_b s m = Inr ?s1"
    using assms(1,4,5) by (simp add: handle_vote_case_b_def Let_def add_pending_fields)
  have w: "pending_weight ?s1 ?key = pending_weight s ?key + c_weight (contribution_of m)"
    by (simp add: pending_weight_def add_pending_def Let_def split: option.splits)
  have c: "pending_contributions ?s1 ?key = pending_contributions s ?key @ [contribution_of m]"
    by (simp add: pending_contributions_def add_pending_def Let_def split: option.splits)
  have d: "\<not> vm_is_group_vote m \<longrightarrow> c_weight (contribution_of m) = 1"
    by (simp add: contribution_of_def)
  show ?thesis
    using b r w c d by (simp add: add_pending_fields)
qed

text \<open>
  Group leader 2 of the four-node session votes \<open>commit\<close> while the session is in
  \<open>prepare\<close>: the vote is dropped by the phase guard and stays in the tally.
\<close>

theorem dropped_vote_stays_in_tally_witness:
  "vote_view (running_session config_n4) (plain_vote 2 0 ''commit'' 0 7)
     = current_view (running_session config_n4)
   \<and> get_topology_info (running_session config_n4) 2 (Some 0) = Inr (Group_leader 0 1 2)
   \<and> role_of (Group_leader 0 1 2) = ''group_leader''
   \<and> get_current_leader (running_session config_n4) (Some 0) = Inr 0
   \<and> vote_phase (plain_vote 2 0 ''commit'' 0 7) \<noteq> phase (running_session config_n4)
   \<and> (\<exists>s'. handle_vote (running_session config_n4) (plain_vote 2 0 ''commit'' 0 7) = Inr s'
         \<and> pending_weight s' (0, ''commit'', 7) = 1
         \<and> pending_contributions s' (0, ''commit'', 7)
              = [\<lparr>c_from = 2, c_weight = 1, c_group_voters = [2]\<rparr>]
         \<and> messages_qc s' = [] \<and> phase s' = ''prepare'')"
proof -
  let ?s = "running_session config_n4"
  let ?m = "plain_vote 2 0 ''commit'' 0 7"
  have f: "current_view ?s = 0" "phase ?s = ''prepare''" "messages_qc ?s = []"
    "nodeCount (config ?s) = 4" "branchCount (config ?s) = 2" "pending_votes ?s = Map.empty"
    by (simp_all add: running_session_def new_session_def config_n4_def)
  have m: "vm_from ?m = 2" "vm_to ?m = 0" "vm_value ?m = 7" "vote_phase ?m = ''commit''"
    "vote_view ?s ?m = 0" "contribution_of ?m = \<lparr>c_from = 2, c_weight = 1, c_group_voters = [2]\<rparr>"
    by (simp_all add: plain_vote_def vote_phase_def vote_view_def contribution_of_def)
  have h1: "vote_view ?s ?m = current_view ?s" using f m by simp
  have h2: "get_topology_info ?s (vm_from ?m) (Some (current_view ?s)) = Inr (Group_leader 0 1 2)"
    by (simp add: get_topology_info_def f m)
  have h3: "role_of (Group_leader 0 1 2) = ''group_leader'' \<or> role_of (Group_leader 0 1 2) = ''root''"
    by (simp add: role_of_def)
  have h4: "get_current_leader ?s (Some (current_view ?s)) = Inr (vm_to ?m)"
    by (simp add: get_current_leader_def f m)
  have h5: "vote_phase ?m \<noteq> phase ?s" using f m by simp
  have p: "pending_weight ?s (0, ''commit'', 7) = 0" "pending_contributions ?s (0, ''commit'', 7) = []"
    by (simp_all add: pending_weight_def pending_contributions_def f)
  from dropped_vote_stays_in_tally [OF h1 h2 h3 h4 h5]
  obtain s' where "handle_vote ?s ?m = Inr s'"
    "pending_weight s' (0, ''commit'', 7) = 1"
    "pending_contributions s' (0, ''commit'', 7) = [\<lparr>c_from = 2, c_weight = 1, c_group_voters = [2]\<rparr>]"
    "messages_qc s' = []" "phase s' = ''prepare''"
    using f m p by auto
  then show ?thesis using h1 h2 h3 h4 h5 f m by (auto simp: role_of_def)
qed

text \<open>
  Claim C3, evaluated where it fails. Seven nodes, two branches, view 0: the members
  1, 2, 4 and 5 each send one \<open>prepare\<close> vote for value 7 to their group leader. The one
  QC that \<open>handle_vote\<close> emits has total weight 6 and four distinct signers, while
  the global quorum is 5.
\<close>

theorem qc_signers_below_quorum:
  "(case replay_votes (running_session config_n7) votes_n7 of
      Inl e \<Rightarrow> []
    | Inr s \<Rightarrow>
        map (\<lambda>qm. (qc_signers (qm_qc qm), distinct (qc_signers (qm_qc qm)),
                    qc_total_weight (qm_qc qm), get_quorum_threshold s))
          (messages_qc s))
   = [([1, 2, 4, 5], True, 6, 5)]"
  by code_simp

text \<open>
  Claim C4, evaluated where it fails. In the same session the members 4 and 5 vote to
  their group leader 3, whose group of three has local quorum 1: each of the two votes
  makes \<open>handle_vote\<close> log a GroupVote from 3 to the leader for the same key, the first
  of weight 1 and the second of weight 2.
\<close>

theorem group_vote_emitted_twice:
  "(case replay_votes (running_session config_n7)
           [plain_vote 4 3 ''prepare'' 0 7, plain_vote 5 3 ''prepare'' 0 7] of
      Inl e \<Rightarrow> []
    | Inr s \<Rightarrow>
        map (\<lambda>m. (vm_from m, vm_to m, vm_view m, vm_phase m, vm_value m,
                   vm_weight m, vm_group_voters m))
          (filter vm_is_group_vote (messages_vote s)))
   = [(3, 0, Some 0, Some ''prepare'', 7, Some 1, Some [4]),
      (3, 0, Some 0, Some ''prepare'', 7, Some 2, Some [4, 5])]
   \<and> get_local_quorum_threshold (running_session config_n7) 3 = 1"
  by code_simp

text \<open>
  Claim C2, evaluated where it fails. Four nodes, two branches, view 0, phase \<open>prepare\<close>:
  nodes 1, 3, 2 and 0 each vote once for value 7. \<open>ConsensusService.handle_vote\<close> has no
  phase guard and builds two QCs for the key \<open>(0, prepare, 7)\<close>, one at the third vote
  and one at the fourth; \<open>handle_vote\<close> of the socket handlers, which has the guard,
  builds one.
\<close>

theorem service_emits_second_qc:
  "(case service_handle_votes (running_session config_n4) votes_n4 of
      Inl e \<Rightarrow> []
    | Inr s \<Rightarrow> map qc_key (messages_qc s))
   = [(0, ''prepare'', 7), (0, ''prepare'', 7)]
   \<and> (case replay_votes (running_session config_n4) votes_n4 of
      Inl e \<Rightarrow> []
    | Inr s \<Rightarrow> map qc_key (messages_qc s))
   = [(0, ''prepare'', 7)]"
  by code_simp

section \<open>PRE-PREPARE and view change\<close>

lemma robot_node_states_self: "\<exists>r. s = s\<lparr>robot_node_states := r\<rparr>"
  by (rule exI [of _ "robot_node_states s"]) simp

lemma mark_received_frame:
  "mark_received p rs s = Inr s' \<Longrightarrow> \<exists>r. s' = s\<lparr>robot_node_states := r\<rparr>"
proof (induction rs arbitrary: s)
  case Nil
  then show ?case by (simp add: robot_node_states_self)
next
  case (Cons x rs)
  show ?case
  proof (cases "x \<noteq> p")
    case False
    then have "mark_received p rs s = Inr s'" using Cons.prems by simp
    then show ?thesis by (rule Cons.IH)
  next
    case True
    then obtain st where st: "robot_node_states s x = Some st"
      using Cons.prems by (cases "robot_node_states s x") simp_all
    define s1 where "s1 = s\<lparr>robot_node_states :=
        (robot_node_states s)(x \<mapsto> st\<lparr>received_pre_prepare := True\<rparr>)\<rparr>"
    have "mark_received p rs s1 = Inr s'"
      using Cons.prems True st by (simp add: s1_def)
    from Cons.IH [OF this] obtain r where "s' = s1\<lparr>robot_node_states := r\<rparr>" by blast
    then have "s' = s\<lparr>robot_node_states := r\<rparr>" by (simp add: s1_def)
    then show ?thesis by blast
  qed
qed


lemma robot_send_pre_prepare_fields:
  assumes "robot_send_pre_prepare s hq = Inr s'"
  shows "config s' = config s" "current_view s' = current_view s"
    "node_states s' = node_states s" "message_buffer s' = message_buffer s"
    "robot_nodes s' = robot_nodes s"
    "last_pre_prepare_view s' = Some (current_view s)"
proof -
  have "config s' = config s \<and> current_view s' = current_view s
    \<and> node_states s' = node_states s \<and> message_buffer s' = message_buffer s
    \<and> robot_nodes s' = robot_nodes s
    \<and> last_pre_prepare_view s' = Some (current_view s)"
  proof (cases "last_pre_prepare_view s = Some (current_view s)")
    case True
    then have "s' = s" using assms by (simp add: robot_send_pre_prepare_def Let_def)
    then show ?thesis using True by simp
  next
    case nd: False
    define s1 where "s1 = s\<lparr>last_pre_prepare_view := Some (current_view s)\<rparr>"
    obtain pr where pr: "get_current_leader s1 None = Inr pr"
      using assms nd by (cases "get_current_leader s1 None")
        (simp_all add: robot_send_pre_prepare_def Let_def s1_def)
    show ?thesis
    proof (cases "pr \<in> set (robot_nodes s1)")
      case False
      then have "s' = s1"
        using assms nd pr by (simp add: robot_send_pre_prepare_def Let_def s1_def)
      then show ?thesis by (simp add: s1_def)
    next
      case True
      define msg where "msg = \<lparr>pm_from = pr,
          pm_value = (case hq of None \<Rightarrow> proposalValue (config s) | Some q \<Rightarrow> qc_value q),
          pm_view = current_view s, pm_round = current_round s, pm_qc = hq\<rparr>"
      define s2 where "s2 = s1\<lparr>messages_pre_prepare := messages_pre_prepare s1 @ [msg]\<rparr>"
      obtain s3 where hb: "hierarchical_broadcast s2 (current_view s) pr = Inr s3"
        using assms nd pr True
        by (cases "hierarchical_broadcast s2 (current_view s) pr")
          (simp_all add: robot_send_pre_prepare_def Let_def s1_def s2_def msg_def
            cong: option.case_cong)
      define s5 where "s5 = s3\<lparr>phase := ''prepare'', phase_step := 1,
          timeout_task := Some \<lparr>tt_view = current_view s, tt_cancelled = False\<rparr>\<rparr>"
      have mr: "mark_received pr (robot_nodes s5) s5 = Inr s'"
        using assms nd pr True hb
        by (simp add: robot_send_pre_prepare_def Let_def s1_def s2_def msg_def s5_def
            cong: option.case_cong)
      obtain k where k: "s3 = s2\<lparr>total_messages_sent := k\<rparr>"
        using hierarchical_broadcast_frame [OF hb] by blast
      obtain r where r: "s' = s5\<lparr>robot_node_states := r\<rparr>"
        using mark_received_frame [OF mr] by blast
      show ?thesis by (simp add: r s5_def k s2_def s1_def)
    qed
  qed
  then show "config s' = config s" "current_view s' = current_view s"
    "node_states s' = node_states s" "message_buffer s' = message_buffer s"
    "robot_nodes s' = robot_nodes s"
    "last_pre_prepare_view s' = Some (current_view s)"
    by simp_all
qed


lemma start_new_view_consensus_fields:
  assumes "start_new_view_consensus s view = Inr s'"
  shows "config s' = config s" "current_view s' = current_view s"
    "node_states s' = node_states s" "message_buffer s' = message_buffer s"
proof -
  obtain ldr where l: "get_current_leader s (Some view) = Inr ldr"
    using assms by (cases "get_current_leader s (Some view)")
      (simp_all add: start_new_view_consensus_def)
  define pnv where "pnv = (case pending_new_views s view of None \<Rightarrow> [] | Some d \<Rightarrow> d)"
  have body: "(if int (length pnv) < 2 * ((nodeCount (config s) - 1) div 3) + 1 then Inr s
               else if ldr \<in> set (robot_nodes s)
                 then robot_send_pre_prepare s (select_high_qc pnv) else Inr s) = Inr s'"
    using assms by (simp only: start_new_view_consensus_def l sum.case Let_def pnv_def)
  have "config s' = config s \<and> current_view s' = current_view s
    \<and> node_states s' = node_states s \<and> message_buffer s' = message_buffer s"
  proof (cases "\<not> int (length pnv) < 2 * ((nodeCount (config s) - 1) div 3) + 1
                \<and> ldr \<in> set (robot_nodes s)")
    case True
    then have "robot_send_pre_prepare s (select_high_qc pnv) = Inr s'"
      using body by simp
    from robot_send_pre_prepare_fields [OF this] show ?thesis by simp
  next
    case False
    then have "s' = s" using body by (auto split: if_splits)
    then show ?thesis by simp
  qed
  then show "config s' = config s" "current_view s' = current_view s"
    "node_states s' = node_states s" "message_buffer s' = message_buffer s" by simp_all
qed


lemma send_new_view_fields:
  "config (send_new_view nv ov l s i) = config s"
  "current_view (send_new_view nv ov l s i) = current_view s"
  "node_states (send_new_view nv ov l s i) = node_states s"
  "message_buffer (send_new_view nv ov l s i) = message_buffer s"
  "robot_nodes (send_new_view nv ov l s i) = robot_nodes s"
  "robot_node_states (send_new_view nv ov l s i) = robot_node_states s"
  by (simp_all add: send_new_view_def Let_def count_message_sent_def)

lemma fold_send_new_view_fields:
  "config (fold (\<lambda>i st. send_new_view nv ov l st i) xs s) = config s
   \<and> current_view (fold (\<lambda>i st. send_new_view nv ov l st i) xs s) = current_view s
   \<and> node_states (fold (\<lambda>i st. send_new_view nv ov l st i) xs s) = node_states s
   \<and> message_buffer (fold (\<lambda>i st. send_new_view nv ov l st i) xs s) = message_buffer s
   \<and> robot_nodes (fold (\<lambda>i st. send_new_view nv ov l st i) xs s) = robot_nodes s
   \<and> robot_node_states (fold (\<lambda>i st. send_new_view nv ov l st i) xs s) = robot_node_states s"
  by (induction xs arbitrary: s) (simp_all add: send_new_view_fields)

lemma fold_reset_fields:
  "config (fold (\<lambda>r st. st\<lparr>robot_node_states := (robot_node_states st)(r \<mapsto> x)\<rparr>) rs s) = config s
   \<and> current_view (fold (\<lambda>r st. st\<lparr>robot_node_states := (robot_node_states st)(r \<mapsto> x)\<rparr>) rs s)
       = current_view s
   \<and> node_states (fold (\<lambda>r st. st\<lparr>robot_node_states := (robot_node_states st)(r \<mapsto> x)\<rparr>) rs s)
       = node_states s
   \<and> message_buffer (fold (\<lambda>r st. st\<lparr>robot_node_states := (robot_node_states st)(r \<mapsto> x)\<rparr>) rs s)
       = message_buffer s
   \<and> robot_nodes (fold (\<lambda>r st. st\<lparr>robot_node_states := (robot_node_states st)(r \<mapsto> x)\<rparr>) rs s)
       = robot_nodes s"
  by (induction rs arbitrary: s) simp_all


lemma enter_new_view_fields:
  assumes "enter_new_view s old_view = Inr s'"
  shows "config s' = config s" "current_view s' = old_view + 1"
    "node_states s' = node_states s" "message_buffer s' = message_buffer s"
proof -
  obtain l where l: "get_current_leader s (Some (old_view + 1)) = Inr l"
    using assms by (cases "get_current_leader s (Some (old_view + 1))")
      (simp_all add: enter_new_view_def Let_def)
  define s1 where "s1 = s\<lparr>current_view := old_view + 1, leader_id := l\<rparr>"
  define s2 where "s2 = fold (\<lambda>robot_id st.
       st\<lparr>robot_node_states := (robot_node_states st)(robot_id \<mapsto> reset_robot_state)\<rparr>)
       (robot_nodes s1) s1"
  define s3 where "s3 = fold (\<lambda>node_id st. send_new_view (old_view + 1) old_view l st node_id)
       (py_range (nodeCount (config s2))) s2"
  have st: "start_new_view_consensus s3 (old_view + 1) = Inr s'"
    using assms l by (simp add: enter_new_view_def Let_def s1_def s2_def s3_def)
  have f2: "config s2 = config s1" "current_view s2 = current_view s1"
    "node_states s2 = node_states s1" "message_buffer s2 = message_buffer s1"
    unfolding s2_def using fold_reset_fields [of reset_robot_state "robot_nodes s1" s1]
    by simp_all
  have f3: "config s3 = config s2" "current_view s3 = current_view s2"
    "node_states s3 = node_states s2" "message_buffer s3 = message_buffer s2"
    unfolding s3_def
    using fold_send_new_view_fields [of "old_view + 1" old_view l
        "py_range (nodeCount (config s2))" s2]
    by simp_all
  have f1: "config s1 = config s" "current_view s1 = old_view + 1"
    "node_states s1 = node_states s" "message_buffer s1 = message_buffer s"
    by (simp_all add: s1_def)
  show "config s' = config s" "current_view s' = old_view + 1"
    "node_states s' = node_states s" "message_buffer s' = message_buffer s"
    using start_new_view_consensus_fields [OF st] f1 f2 f3 by simp_all
qed


lemma trigger_view_change_frame:
  assumes "trigger_view_change s old_view = Inr s'"
  shows "locked_nondecreasing s s'"
proof -
  obtain s4 where e: "enter_new_view s old_view = Inr s4"
    using assms by (cases "enter_new_view s old_view")
      (simp_all add: trigger_view_change_def Let_def)
  have l4: "locked_nondecreasing s s4"
    using enter_new_view_fields(3) [OF e] by (rule locked_nondecreasing_same)
  have drop: "locked_nondecreasing t (t\<lparr>message_buffer := b\<rparr>)" for t b
    by (rule locked_nondecreasing_same) simp
  have body: "(case message_buffer s4 (old_view + 1) of
             None \<Rightarrow> Inr s4
           | Some (VoteList bvs) \<Rightarrow>
               (case replay_votes s4 bvs of
                  Inl e \<Rightarrow> Inl e
                | Inr s5 \<Rightarrow>
                    Inr (s5\<lparr>message_buffer := (message_buffer s5)(old_view + 1 := None)\<rparr>))
           | Some (NodeBuffer []) \<Rightarrow>
               Inr (s4\<lparr>message_buffer := (message_buffer s4)(old_view + 1 := None)\<rparr>)
           | Some (NodeBuffer (_ # _)) \<Rightarrow> Inl AttributeError) = Inr s'"
    using assms by (simp only: trigger_view_change_def Let_def e sum.case)
  show ?thesis
  proof (cases "message_buffer s4 (old_view + 1)")
    case None
    then show ?thesis using body l4 by simp
  next
    case (Some entry)
    show ?thesis
    proof (cases entry)
      case (VoteList vs)
      then obtain s5 where r: "replay_votes s4 vs = Inr s5"
        and s': "s' = s5\<lparr>message_buffer := (message_buffer s5)(old_view + 1 := None)\<rparr>"
        using body Some by (cases "replay_votes s4 vs") auto
      from replay_votes_frame [OF r] have "locked_nondecreasing s4 s5"
        by (simp add: vote_frame_def)
      then show ?thesis
        using l4 drop [of s5] s' locked_nondecreasing_trans by blast
    next
      case (NodeBuffer ps)
      then have "s' = s4\<lparr>message_buffer := (message_buffer s4)(old_view + 1 := None)\<rparr>"
        using body Some by (cases ps) auto
      then show ?thesis using l4 drop [of s4] locked_nondecreasing_trans by blast
    qed
  qed
qed

section \<open>Locked QC, view gate, idempotence\<close>

lemma handle_qc_for_node_eq: "handle_qc_for_node s qm i = handle_qc_message s qm i"
  by (simp add: handle_qc_for_node_def handle_qc_message_def)

text \<open>
  Claim C5. \<open>handle_qc_message\<close> leaves every lock as it is for a QC whose phase is not
  \<open>commit\<close>; \<open>update_node_locked_qc\<close> leaves the lock as it is for a QC of the same or
  a lower view, and where it changes a lock, the node had none or one of a strictly
  lower view and now holds the new QC; and across each operation of the model
  (a QC applied to a node, a vote handled, a view change, a PRE-PREPARE emission,
  a finalization) no node's \<open>lockedQC.view\<close> decreases.
\<close>

theorem locked_view_never_regresses:
  "(qc_phase (qm_qc qm) \<noteq> ''commit'' \<longrightarrow>
      locked_of (handle_qc_message s qm i) j = locked_of s j)
   \<and> (\<forall>cur. locked_of s i = Some cur \<longrightarrow> qc_view q \<le> qc_view cur \<longrightarrow>
         locked_of (update_node_locked_qc s i q) j = locked_of s j)
   \<and> (locked_of (update_node_locked_qc s i q) j \<noteq> locked_of s j \<longrightarrow>
         j = i \<and> locked_of (update_node_locked_qc s i q) i = Some q
         \<and> (locked_of s i = None
              \<or> (\<exists>cur. locked_of s i = Some cur \<and> qc_view cur < qc_view q)))
   \<and> locked_nondecreasing s (handle_qc_message s qm i)
   \<and> locked_nondecreasing s (handle_qc_for_node s qm i)
   \<and> (handle_vote s m = Inr s' \<longrightarrow> locked_nondecreasing s s')
   \<and> (trigger_view_change s v = Inr s' \<longrightarrow> locked_nondecreasing s s')
   \<and> (robot_send_pre_prepare s hq = Inr s' \<longrightarrow> locked_nondecreasing s s')
   \<and> locked_nondecreasing s (finalize_consensus s st d)"
proof -
  have a: "qc_phase (qm_qc qm) \<noteq> ''commit'' \<longrightarrow>
      locked_of (handle_qc_message s qm i) j = locked_of s j"
    by (simp add: locked_of_handle_qc_message_other)
  have b: "\<forall>cur. locked_of s i = Some cur \<longrightarrow> qc_view q \<le> qc_view cur \<longrightarrow>
         locked_of (update_node_locked_qc s i q) j = locked_of s j"
    by (auto simp: locked_of_update_locked)
  have c: "locked_of (update_node_locked_qc s i q) j \<noteq> locked_of s j \<longrightarrow>
         j = i \<and> locked_of (update_node_locked_qc s i q) i = Some q
         \<and> (locked_of s i = None
              \<or> (\<exists>cur. locked_of s i = Some cur \<and> qc_view cur < qc_view q))"
    by (auto simp: locked_of_update_locked split: option.splits if_splits)
  have d: "locked_nondecreasing s (handle_qc_message s qm i)"
    by (rule locked_nondecreasing_handle_qc_message)
  have e: "locked_nondecreasing s (handle_qc_for_node s qm i)"
    unfolding handle_qc_for_node_eq by (rule locked_nondecreasing_handle_qc_message)
  have f: "handle_vote s m = Inr s' \<longrightarrow> locked_nondecreasing s s'"
    using handle_vote_frame [of s m s'] by (simp add: vote_frame_def)
  have g: "trigger_view_change s v = Inr s' \<longrightarrow> locked_nondecreasing s s'"
    using trigger_view_change_frame [of s v s'] by simp
  have h: "robot_send_pre_prepare s hq = Inr s' \<longrightarrow> locked_nondecreasing s s'"
    using robot_send_pre_prepare_fields(3) [of s hq s'] locked_nondecreasing_same by blast
  have k: "locked_nondecreasing s (finalize_consensus s st d)"
    by (rule locked_nondecreasing_same) (simp add: finalize_consensus_fields)
  from a b c d e f g h k show ?thesis by blast
qed

text \<open>
  Node 2 is locked on view 5: a commit QC of view 3 and a prepare QC of view 9 both
  leave the lock where it is.
\<close>

theorem locked_view_never_regresses_witness:
  "locked_of locked_session 2 = Some locked_qc_example
   \<and> qc_view (locked_qc_example\<lparr>qc_view := 3\<rparr>) \<le> qc_view locked_qc_example
   \<and> locked_of (update_node_locked_qc locked_session 2 (locked_qc_example\<lparr>qc_view := 3\<rparr>)) 2
        = Some locked_qc_example
   \<and> qc_phase (locked_qc_example\<lparr>qc_phase := ''prepare'', qc_view := 9\<rparr>) \<noteq> ''commit''
   \<and> locked_of (handle_qc_message locked_session
          \<lparr>qm_from = 0, qm_phase = ''prepare'', qm_next_phase = ''pre-commit'', qm_view = 9,
           qm_round = 1, qm_qc = locked_qc_example\<lparr>qc_phase := ''prepare'', qc_view := 9\<rparr>\<rparr> 2) 2
        = Some locked_qc_example"
proof -
  let ?q3 = "locked_qc_example\<lparr>qc_view := 3\<rparr>"
  let ?q9 = "locked_qc_example\<lparr>qc_phase := ''prepare'', qc_view := 9\<rparr>"
  let ?qm = "\<lparr>qm_from = 0, qm_phase = ''prepare'', qm_next_phase = ''pre-commit'', qm_view = 9,
           qm_round = 1, qm_qc = ?q9\<rparr>"
  have l: "locked_of locked_session 2 = Some locked_qc_example"
    by (rule locked_session_lock)
  have v: "qc_view ?q3 \<le> qc_view locked_qc_example"
    by (simp add: locked_qc_example_def)
  have p: "qc_phase (qm_qc ?qm) \<noteq> ''commit''" by simp
  from locked_view_never_regresses [of ?qm locked_session 2 2 ?q3] l v p
  show ?thesis by simp
qed



text \<open>
  Claim C8. \<open>finalize_consensus\<close> (and \<open>finalize_consensus_state\<close>) called while
  \<open>consensus_finalized_view\<close> equals the current view returns the session unchanged, so a
  second call after a first one changes nothing; \<open>robot_send_pre_prepare\<close> called while
  \<open>last_pre_prepare_view\<close> equals the current view returns the session unchanged, so a
  second call after a first one appends no second proposal.
\<close>

theorem finalize_and_pre_prepare_once_per_view:
  "(consensus_finalized_view s = Some (current_view s) \<longrightarrow>
      finalize_consensus s st d = s \<and> fst (finalize_consensus_state s st d) = s)
   \<and> finalize_consensus (finalize_consensus s st d) st' d' = finalize_consensus s st d
   \<and> (last_pre_prepare_view s = Some (current_view s) \<longrightarrow>
        robot_send_pre_prepare s hq = Inr s)
   \<and> (robot_send_pre_prepare s hq = Inr s1 \<longrightarrow> robot_send_pre_prepare s1 hq' = Inr s1)"
proof -
  have a: "consensus_finalized_view s = Some (current_view s) \<longrightarrow>
      finalize_consensus s st d = s \<and> fst (finalize_consensus_state s st d) = s"
    by (simp add: finalize_consensus_def finalize_consensus_state_def Let_def)
  have b: "finalize_consensus (finalize_consensus s st d) st' d' = finalize_consensus s st d"
    by (simp add: finalize_consensus_def Let_def split: option.splits)
  have c: "last_pre_prepare_view t = Some (current_view t) \<longrightarrow>
        robot_send_pre_prepare t x = Inr t" for t x
    by (simp add: robot_send_pre_prepare_def Let_def)
  have e: "robot_send_pre_prepare s hq = Inr s1 \<longrightarrow> robot_send_pre_prepare s1 hq' = Inr s1"
  proof
    assume r: "robot_send_pre_prepare s hq = Inr s1"
    have "last_pre_prepare_view s1 = Some (current_view s1)"
      using robot_send_pre_prepare_fields(2,6) [OF r] by simp
    then show "robot_send_pre_prepare s1 hq' = Inr s1" using c by blast
  qed
  from a b c [of s hq] e show ?thesis by blast
qed

text \<open>
  The counted session is finalized twice and has one history item; the robot
  leader of the all-robot session sends its proposal, and a second call adds none.
\<close>

theorem finalize_and_pre_prepare_once_per_view_witness:
  "length (consensus_history
       (finalize_consensus (finalize_consensus counted_session ''Consensus Success'' ''a'')
          ''Consensus Success'' ''b'')) = 1
   \<and> status (finalize_consensus counted_session ''Consensus Success'' ''a'') = ''completed''
   \<and> (\<exists>s1. robot_send_pre_prepare robot_session None = Inr s1
         \<and> length (messages_pre_prepare s1) = 1
         \<and> robot_send_pre_prepare s1 None = Inr s1)"
proof -
  have h: "length (consensus_history (finalize_consensus counted_session
              ''Consensus Success'' ''a'')) = 1"
    "status (finalize_consensus counted_session ''Consensus Success'' ''a'') = ''completed''"
    by (simp_all add: finalize_consensus_def Let_def counted_session_def running_session_def
        new_session_def)
  have "case robot_send_pre_prepare robot_session None of
          Inl e \<Rightarrow> False | Inr s1 \<Rightarrow> length (messages_pre_prepare s1) = 1"
    by code_simp
  then obtain s1 where r: "robot_send_pre_prepare robot_session None = Inr s1"
    and l: "length (messages_pre_prepare s1) = 1"
    by (cases "robot_send_pre_prepare robot_session None") simp_all
  have "robot_send_pre_prepare s1 None = Inr s1"
    using finalize_and_pre_prepare_once_per_view [of robot_session _ _ _ _ None s1 None] r
    by blast
  then show ?thesis
    using h r l
      finalize_and_pre_prepare_once_per_view [of counted_session "''Consensus Success''" "''a''"
        "''Consensus Success''" "''b''"]
    by simp
qed

end
